theory Spec2Isabelle
  imports Complex_Main
begin

section \<open>Floating-point values as the analytics code sees them\<close>

text \<open>
  The analytics functions of \<^verbatim>\<open>src/src/analytics.py\<close> work on pandas Series of
  float64. Such a value is a finite number, one of the two infinities, or NaN. The
  special values are kept, because numpy and pandas divide by zero without raising:
  \<^verbatim>\<open>x / 0\<close> is an infinity for \<^verbatim>\<open>x \<noteq> 0\<close> and NaN for \<^verbatim>\<open>x = 0\<close>, and NaN is what pandas
  uses for a missing entry. The two signed zeros are one value.

  Arithmetic is modelled at two levels. The operations of this section are exact on
  finite values; they serve the properties that name a formula the code evaluates
  (returns, volatility, drawdown, RSI), where rounding changes the last digits only. The
  operations of the next section round every result to binary64; they serve the
  properties that test a computed value for equality or for its sign (the guard of the
  Sharpe ratio, the coincidence of the Bollinger bands, the positivity of a generated
  price), where rounding and underflow decide the outcome.
\<close>

datatype fl = Fin real | PInf | NInf | NaN

fun fneg :: "fl \<Rightarrow> fl" where
  "fneg (Fin a) = Fin (- a)"
| "fneg PInf = NInf"
| "fneg NInf = PInf"
| "fneg NaN = NaN"

fun fadd :: "fl \<Rightarrow> fl \<Rightarrow> fl" where
  "fadd (Fin a) (Fin b) = Fin (a + b)"
| "fadd NaN _ = NaN"
| "fadd _ NaN = NaN"
| "fadd PInf NInf = NaN"
| "fadd NInf PInf = NaN"
| "fadd PInf _ = PInf"
| "fadd NInf _ = NInf"
| "fadd _ PInf = PInf"
| "fadd _ NInf = NInf"

definition fsub :: "fl \<Rightarrow> fl \<Rightarrow> fl" where
  "fsub x y = fadd x (fneg y)"

fun fmul :: "fl \<Rightarrow> fl \<Rightarrow> fl" where
  "fmul (Fin a) (Fin b) = Fin (a * b)"
| "fmul NaN _ = NaN"
| "fmul _ NaN = NaN"
| "fmul PInf (Fin b) = (if b = 0 then NaN else if 0 < b then PInf else NInf)"
| "fmul NInf (Fin b) = (if b = 0 then NaN else if 0 < b then NInf else PInf)"
| "fmul (Fin a) PInf = (if a = 0 then NaN else if 0 < a then PInf else NInf)"
| "fmul (Fin a) NInf = (if a = 0 then NaN else if 0 < a then NInf else PInf)"
| "fmul PInf PInf = PInf"
| "fmul NInf NInf = PInf"
| "fmul PInf NInf = NInf"
| "fmul NInf PInf = NInf"

text \<open>
  Division by a zero does not raise: it gives an infinity with the sign of the numerator
  (the zero is taken as positive), or NaN for \<^verbatim>\<open>0 / 0\<close>.
\<close>

fun fdiv :: "fl \<Rightarrow> fl \<Rightarrow> fl" where
  "fdiv (Fin a) (Fin b) =
     (if b = 0 then (if a = 0 then NaN else if 0 < a then PInf else NInf)
      else Fin (a / b))"
| "fdiv NaN _ = NaN"
| "fdiv _ NaN = NaN"
| "fdiv (Fin a) PInf = Fin 0"
| "fdiv (Fin a) NInf = Fin 0"
| "fdiv PInf (Fin b) = (if 0 \<le> b then PInf else NInf)"
| "fdiv NInf (Fin b) = (if 0 \<le> b then NInf else PInf)"
| "fdiv PInf PInf = NaN"
| "fdiv PInf NInf = NaN"
| "fdiv NInf PInf = NaN"
| "fdiv NInf NInf = NaN"

fun fsqrt :: "fl \<Rightarrow> fl" where
  "fsqrt (Fin a) = (if a < 0 then NaN else Fin (sqrt a))"
| "fsqrt PInf = PInf"
| "fsqrt NInf = NaN"
| "fsqrt NaN = NaN"

text \<open>Comparisons: every comparison with NaN is false.\<close>

fun flt :: "fl \<Rightarrow> fl \<Rightarrow> bool" where
  "flt (Fin a) (Fin b) = (a < b)"
| "flt NaN _ = False"
| "flt _ NaN = False"
| "flt NInf NInf = False"
| "flt NInf _ = True"
| "flt _ NInf = False"
| "flt PInf _ = False"
| "flt _ PInf = True"

definition fle :: "fl \<Rightarrow> fl \<Rightarrow> bool" where
  "fle x y = (x \<noteq> NaN \<and> y \<noteq> NaN \<and> (x = y \<or> flt x y))"

definition isnan :: "fl \<Rightarrow> bool" where
  "isnan x = (x = NaN)"

section \<open>Rounding to binary64\<close>

text \<open>
  IEEE 754 binary64, round to nearest, ties to even. \<open>expo x\<close> is the binary exponent of
  \<open>x\<close>, not below \<open>- 1022\<close> (smaller values are subnormal); \<open>ulp64 x\<close> is the spacing of the
  float64 values around \<open>x\<close>; \<open>r64 x\<close> is the multiple of \<open>ulp64 x\<close> nearest to \<open>x\<close>. \<open>r64\<close>
  has no upper limit; \<open>round64\<close> adds the overflow to an infinity. An operation on float64
  values is the exact operation followed by the rounding.
\<close>

definition rhe :: "real \<Rightarrow> int" where
  "rhe q =
     (let f = \<lfloor>q\<rfloor>
      in if q - of_int f < 1 / 2 then f
         else if 1 / 2 < q - of_int f then f + 1
         else if even f then f else f + 1)"

definition expo :: "real \<Rightarrow> int" where
  "expo x = max \<lfloor>log 2 \<bar>x\<bar>\<rfloor> (- 1022)"

definition ulp64 :: "real \<Rightarrow> real" where
  "ulp64 x = 2 powr (of_int (expo x) - 52)"

definition r64 :: "real \<Rightarrow> real" where
  "r64 x = (if x = 0 then 0 else of_int (rhe (x / ulp64 x)) * ulp64 x)"

definition round64 :: "real \<Rightarrow> fl" where
  "round64 x =
     (let r = r64 x
      in if 2 ^ 1024 \<le> r then PInf else if r \<le> - (2 ^ 1024) then NInf else Fin r)"

fun rnd :: "fl \<Rightarrow> fl" where
  "rnd (Fin a) = round64 a"
| "rnd PInf = PInf"
| "rnd NInf = NInf"
| "rnd NaN = NaN"

definition dadd :: "fl \<Rightarrow> fl \<Rightarrow> fl" where
  "dadd x y = rnd (fadd x y)"

definition dsub :: "fl \<Rightarrow> fl \<Rightarrow> fl" where
  "dsub x y = rnd (fsub x y)"

definition dmul :: "fl \<Rightarrow> fl \<Rightarrow> fl" where
  "dmul x y = rnd (fmul x y)"



text \<open>
  \<^verbatim>\<open>np.exp\<close> on a finite float64, taken as the correctly rounded exponential (the
  library is accurate to the last digit or two; what follows uses only its sign and its
  underflow to 0).
\<close>

definition np_exp :: "real \<Rightarrow> real" where
  "np_exp x = r64 (exp x)"

section \<open>The pandas and numpy operations the code calls\<close>

text \<open>
  A price column of a DataFrame (\<^verbatim>\<open>df[price_col]\<close>) is a list of finite values,
  \<open>real list\<close>; every derived Series is an \<open>fl list\<close>, with NaN for an undefined
  entry.
\<close>

definition dropna :: "fl list \<Rightarrow> fl list" where
  "dropna xs = filter (\<lambda>x. \<not> isnan x) xs"

text \<open>\<^verbatim>\<open>Series.shift(1)\<close>: every entry moves one place down, the first entry is NaN.\<close>

definition shift1 :: "fl list \<Rightarrow> fl list" where
  "shift1 xs = take (length xs) (NaN # xs)"

text \<open>\<^verbatim>\<open>Series.pct_change()\<close> is \<^verbatim>\<open>data / data.shift(1) - 1\<close>.\<close>

definition pct_change :: "fl list \<Rightarrow> fl list" where
  "pct_change xs = map (\<lambda>(x, p). fsub (fdiv x p) (Fin 1)) (zip xs (shift1 xs))"

text \<open>\<^verbatim>\<open>Series.diff()\<close> is \<^verbatim>\<open>data - data.shift(1)\<close>.\<close>

definition diff :: "fl list \<Rightarrow> fl list" where
  "diff xs = map (\<lambda>(x, p). fsub x p) (zip xs (shift1 xs))"

text \<open>
  Reductions of a Series skip NaN (\<^verbatim>\<open>skipna=True\<close>). \<^verbatim>\<open>np.mean(series)\<close> and
  \<^verbatim>\<open>np.std(series)\<close> on a pandas Series dispatch to \<^verbatim>\<open>Series.mean()\<close> and to
  \<^verbatim>\<open>Series.std(ddof=0)\<close>: numpy passes its own default \<^verbatim>\<open>ddof=0\<close>, so \<^verbatim>\<open>np.std\<close>
  divides by the number of observations. \<^verbatim>\<open>Series.std()\<close> called directly, as the rolling
  windows do, has \<^verbatim>\<open>ddof=1\<close>.
\<close>

fun fsum :: "fl list \<Rightarrow> fl" where
  "fsum [] = Fin 0"
| "fsum (x # xs) = fadd x (fsum xs)"

definition nanmean :: "fl list \<Rightarrow> fl" where
  "nanmean xs =
     (let ys = dropna xs; count = length ys
      in if 0 < count then fdiv (fsum ys) (Fin (real count)) else NaN)"

definition nanvar :: "nat \<Rightarrow> fl list \<Rightarrow> fl" where
  "nanvar ddof xs =
     (let ys = dropna xs; count = length ys
      in if count \<le> ddof then NaN
         else
           let avg = fdiv (fsum ys) (Fin (real count));
               sqr = fsum (map (\<lambda>x. fmul (fsub avg x) (fsub avg x)) ys)
           in fdiv sqr (Fin (real (count - ddof))))"

definition nanstd :: "nat \<Rightarrow> fl list \<Rightarrow> fl" where
  "nanstd ddof xs = fsqrt (nanvar ddof xs)"

definition np_mean :: "fl list \<Rightarrow> fl" where
  "np_mean xs = nanmean xs"

definition np_std :: "fl list \<Rightarrow> fl" where
  "np_std xs = nanstd 0 xs"







definition fmin2 :: "fl \<Rightarrow> fl \<Rightarrow> fl" where
  "fmin2 a b = (if flt b a then b else a)"

text \<open>\<^verbatim>\<open>Series.min()\<close>: the least entry that is not NaN, NaN when there is none.\<close>

definition series_min :: "fl list \<Rightarrow> fl" where
  "series_min xs = (case dropna xs of [] \<Rightarrow> NaN | y # ys \<Rightarrow> foldl fmin2 y ys)"

text \<open>\<^verbatim>\<open>Series.cummax()\<close> on a column without NaN: the running maximum.\<close>

fun cummax_from :: "real \<Rightarrow> real list \<Rightarrow> real list" where
  "cummax_from m [] = []"
| "cummax_from m (x # xs) = max m x # cummax_from (max m x) xs"

fun cummax :: "real list \<Rightarrow> real list" where
  "cummax [] = []"
| "cummax (x # xs) = x # cummax_from x xs"

text \<open>
  \<^verbatim>\<open>Series.rolling(window=w)\<close>: at index \<open>i\<close> the window holds the entries
  \<open>i - w + 1 .. i\<close> (fewer at the start of the series). \<^verbatim>\<open>min_periods\<close> defaults to the
  window size, so the result is NaN unless the window holds \<open>w\<close> entries that are not
  NaN; otherwise the aggregate is taken over them.
\<close>

definition window_at :: "nat \<Rightarrow> fl list \<Rightarrow> nat \<Rightarrow> fl list" where
  "window_at w xs i = drop (Suc i - w) (take (Suc i) xs)"

definition rolling :: "(fl list \<Rightarrow> fl) \<Rightarrow> nat \<Rightarrow> fl list \<Rightarrow> fl list" where
  "rolling agg w xs =
     map (\<lambda>i. let obs = dropna (window_at w xs i)
               in if length obs < w then NaN else agg obs)
         [0 ..< length xs]"

definition rolling_mean :: "nat \<Rightarrow> fl list \<Rightarrow> fl list" where
  "rolling_mean w xs = rolling nanmean w xs"

definition rolling_std :: "nat \<Rightarrow> fl list \<Rightarrow> fl list" where
  "rolling_std w xs = rolling (nanstd 1) w xs"

text \<open>
  The rolling mean and standard deviation as float64 Series. pandas computes them by
  running updates over the window (a compensated sum, Welford's update for the variance,
  which is exactly 0 on a window of equal values); the model takes the exact value
  rounded to binary64. The properties below use only that each entry is a float64 value
  and that the deviation is not negative.
\<close>

definition rolling_mean64 :: "nat \<Rightarrow> fl list \<Rightarrow> fl list" where
  "rolling_mean64 w xs = map rnd (rolling_mean w xs)"

definition rolling_std64 :: "nat \<Rightarrow> fl list \<Rightarrow> fl list" where
  "rolling_std64 w xs = map rnd (rolling_std w xs)"

section \<open>MarketAnalytics\<close>

text \<open>
  Each function takes the column \<^verbatim>\<open>df[price_col]\<close> (or the Series it is given) as its
  argument. None of them raises: the source has no \<^verbatim>\<open>raise\<close> and no validation of its
  arguments, and the library calls return NaN or an infinity where a value is undefined.
\<close>

datatype error = InvalidInput | ValueError | OverflowError

text \<open>\<^verbatim>\<open>compute_returns\<close>: \<^verbatim>\<open>df[price_col].pct_change().dropna()\<close>.\<close>

definition compute_returns :: "real list \<Rightarrow> fl list" where
  "compute_returns prices = dropna (pct_change (map Fin prices))"

text \<open>
  \<^verbatim>\<open>compute_mean\<close>: \<^verbatim>\<open>float(np.mean(values))\<close>. The result type has room for an error
  raised to the caller; the source has no path that raises one.
\<close>

definition compute_mean :: "fl list \<Rightarrow> error + fl" where
  "compute_mean values = Inr (np_mean values)"

text \<open>
  \<^verbatim>\<open>compute_volatility\<close>: \<^verbatim>\<open>vol = float(np.std(returns))\<close>, multiplied by
  \<^verbatim>\<open>np.sqrt(252)\<close> when \<^verbatim>\<open>annualize\<close> is set.
\<close>

definition compute_volatility :: "fl list \<Rightarrow> bool \<Rightarrow> fl" where
  "compute_volatility returns annualize =
     (let vol = np_std returns
      in if annualize then fmul vol (Fin (sqrt 252)) else vol)"



text \<open>
  \<^verbatim>\<open>compute_max_drawdown\<close>: \<^verbatim>\<open>cumulative_max = prices.cummax()\<close>,
  \<^verbatim>\<open>drawdown = (prices - cumulative_max) / cumulative_max\<close>, \<^verbatim>\<open>drawdown.min()\<close>.
\<close>

definition drawdown :: "real list \<Rightarrow> fl list" where
  "drawdown prices =
     map (\<lambda>(p, m). fdiv (fsub (Fin p) (Fin m)) (Fin m)) (zip prices (cummax prices))"

definition compute_max_drawdown :: "real list \<Rightarrow> fl" where
  "compute_max_drawdown prices = series_min (drawdown prices)"

text \<open>\<^verbatim>\<open>compute_moving_average\<close>: \<^verbatim>\<open>df[price_col].rolling(window=window).mean()\<close>.\<close>

definition compute_moving_average :: "real list \<Rightarrow> nat \<Rightarrow> fl list" where
  "compute_moving_average prices window = rolling_mean window (map Fin prices)"

text \<open>
  \<^verbatim>\<open>compute_bollinger_bands\<close>, in binary64, returns \<^verbatim>\<open>(middle, upper, lower)\<close> with
  \<^verbatim>\<open>upper = middle + (std * num_std)\<close> and \<^verbatim>\<open>lower = middle - (std * num_std)\<close>, where
  \<^verbatim>\<open>std\<close> is the rolling \<^verbatim>\<open>std()\<close> of pandas (\<^verbatim>\<open>ddof=1\<close>).
\<close>

definition bollinger_std :: "real list \<Rightarrow> nat \<Rightarrow> fl list" where
  "bollinger_std prices window = rolling_std64 window (map Fin prices)"

definition compute_bollinger_bands ::
  "real list \<Rightarrow> nat \<Rightarrow> real \<Rightarrow> fl list \<times> fl list \<times> fl list" where
  "compute_bollinger_bands prices window num_std =
     (let middle = rolling_mean64 window (map Fin prices);
          std = bollinger_std prices window;
          upper = map (\<lambda>(m, s). dadd m (dmul s (Fin num_std))) (zip middle std);
          lower = map (\<lambda>(m, s). dsub m (dmul s (Fin num_std))) (zip middle std)
      in (middle, upper, lower))"

text \<open>
  \<^verbatim>\<open>compute_rsi\<close>: \<^verbatim>\<open>delta.where(cond, 0)\<close> keeps an entry where the condition holds and
  puts 0 elsewhere, also at the first index, where \<^verbatim>\<open>delta\<close> is NaN and both comparisons
  are false. \<^verbatim>\<open>rs = gain / loss\<close> is a plain division of two Series.
\<close>

definition rsi_gain :: "real list \<Rightarrow> nat \<Rightarrow> fl list" where
  "rsi_gain prices window =
     (let delta = diff (map Fin prices)
      in rolling_mean window (map (\<lambda>d. if flt (Fin 0) d then d else Fin 0) delta))"

definition rsi_loss :: "real list \<Rightarrow> nat \<Rightarrow> fl list" where
  "rsi_loss prices window =
     (let delta = diff (map Fin prices)
      in rolling_mean window (map fneg (map (\<lambda>d. if flt d (Fin 0) then d else Fin 0) delta)))"

definition compute_rsi :: "real list \<Rightarrow> nat \<Rightarrow> fl list" where
  "compute_rsi prices window =
     (let gain = rsi_gain prices window;
          loss = rsi_loss prices window;
          rs = map (\<lambda>(g, l). fdiv g l) (zip gain loss);
          rsi = map (\<lambda>r. fsub (Fin 100) (fdiv (Fin 100) (fadd (Fin 1) r))) rs
      in rsi)"

section \<open>MarketDataFetcher\<close>

text \<open>
  The generator of \<^verbatim>\<open>src/src/data_fetcher.py\<close> reads two things from its environment:
  the wall clock (\<^verbatim>\<open>datetime.now()\<close>) and the random stream of numpy, which is global to
  the process. Both are explicit here. The clock reading is an argument. The random
  stream is a state \<open>'g\<close>, passed in and returned; numpy's generator is not part of the
  repository, so seeding and the three kinds of draw are parameters, and a draw of \<open>n\<close>
  values is \<open>n\<close> single draws in order. Prices are finite float64 values and every
  arithmetic result is rounded to binary64 (\<open>r64\<close>); overflow to an infinity is not
  modelled.
\<close>

record 'g rng_ops =
  seed_state :: "int \<Rightarrow> 'g"
  normal :: "real \<Rightarrow> real \<Rightarrow> 'g \<Rightarrow> real \<times> 'g"
  uniform :: "real \<Rightarrow> real \<Rightarrow> 'g \<Rightarrow> real \<times> 'g"
  randint :: "int \<Rightarrow> int \<Rightarrow> 'g \<Rightarrow> int \<times> 'g"

fun draws :: "('g \<Rightarrow> 'a \<times> 'g) \<Rightarrow> nat \<Rightarrow> 'g \<Rightarrow> 'a list \<times> 'g" where
  "draws f 0 g = ([], g)"
| "draws f (Suc n) g =
     (let (x, g1) = f g; (xs, g2) = draws f n g1 in (x # xs, g2))"

text \<open>
  A timestamp is a calendar day, as Python's proleptic Gregorian ordinal (day 1 is Monday,
  1 January of year 1, so the weekday is \<open>(ordinal + 6) mod 7\<close> with Monday 0), and the
  time of day in microseconds. \<^verbatim>\<open>pd.date_range(start, periods, freq='B')\<close> rolls a
  start on a weekend forward to Monday, then steps one business day at a time; the time
  of day is kept.
\<close>

record timestamp =
  ordinal :: int
  micros :: nat

definition weekday :: "timestamp \<Rightarrow> int" where
  "weekday t = (ordinal t + 6) mod 7"

definition add_days :: "timestamp \<Rightarrow> int \<Rightarrow> timestamp" where
  "add_days t n = t\<lparr>ordinal := ordinal t + n\<rparr>"

definition rollforward :: "timestamp \<Rightarrow> timestamp" where
  "rollforward t = (if weekday t < 5 then t else add_days t (7 - weekday t))"

definition next_bday :: "timestamp \<Rightarrow> timestamp" where
  "next_bday t =
     (if weekday t > 4 then add_days t (7 - weekday t)
      else if weekday t + 1 \<le> 4 then add_days t 1
      else add_days t 3)"

fun bdays :: "timestamp \<Rightarrow> nat \<Rightarrow> timestamp list" where
  "bdays t 0 = []"
| "bdays t (Suc n) = t # bdays (next_bday t) n"

definition date_range :: "timestamp \<Rightarrow> nat \<Rightarrow> timestamp list" where
  "date_range start periods = bdays (rollforward start) periods"

text \<open>\<^verbatim>\<open>np.cumsum\<close>: the first entry as it is, then one rounded addition per entry.\<close>

fun cumsum_from :: "real \<Rightarrow> real list \<Rightarrow> real list" where
  "cumsum_from acc [] = []"
| "cumsum_from acc (x # xs) = r64 (acc + x) # cumsum_from (r64 (acc + x)) xs"

fun cumsum :: "real list \<Rightarrow> real list" where
  "cumsum [] = []"
| "cumsum (x # xs) = x # cumsum_from x xs"

record dataframe =
  Date :: "timestamp list"
  Symbol :: "string list"
  Open :: "real list"
  High :: "real list"
  Low :: "real list"
  Close :: "real list"
  Volume :: "int list"

text \<open>
  \<^verbatim>\<open>generate_stock_prices\<close>. The entries of the \<^verbatim>\<open>data\<close> dictionary are evaluated in the
  order they are written, so the draws are: normal (returns), uniform (Open), uniform
  (High), uniform (Low), randint (Volume). Two library calls raise on arguments the
  signature admits: \<^verbatim>\<open>datetime.now() - timedelta(days=days)\<close> raises \<^verbatim>\<open>OverflowError\<close>
  when the date would fall before year 1, and \<^verbatim>\<open>np.random.normal\<close> raises
  \<^verbatim>\<open>ValueError\<close> for a negative scale. The range limits of pandas timestamps are not
  modelled. \<open>days\<close> is a natural number.
\<close>

definition generate_stock_prices ::
  "'g rng_ops \<Rightarrow> timestamp \<Rightarrow> 'g \<Rightarrow> string \<Rightarrow> nat \<Rightarrow> real \<Rightarrow> real \<Rightarrow> real
     \<Rightarrow> error + (dataframe \<times> 'g)" where
  "generate_stock_prices ops now g symbol days initial_price drift volatility =
     (if ordinal now - int days < 1 then Inl OverflowError
      else
        let start_date = add_days now (- int days);
            dates = date_range start_date days
        in if volatility < 0 then Inl ValueError
           else
             let (returns, g1) = draws (normal ops drift volatility) days g;
                 prices = map (\<lambda>s. r64 (initial_price * np_exp s)) (cumsum returns);
                 (u_open, g2) = draws (uniform ops (- 0.005) 0.005) days g1;
                 (u_high, g3) = draws (uniform ops 0 0.01) days g2;
                 (u_low, g4) = draws (uniform ops 0 0.01) days g3;
                 (volume, g5) = draws (randint ops 1000000 10000000) days g4;
                 df = \<lparr>Date = dates,
                       Symbol = replicate days symbol,
                       Open = map2 (\<lambda>p u. r64 (p * r64 (1 + u))) prices u_open,
                       High = map2 (\<lambda>p u. r64 (p * r64 (1 + \<bar>u\<bar>))) prices u_high,
                       Low = map2 (\<lambda>p u. r64 (p * r64 (1 - \<bar>u\<bar>))) prices u_low,
                       Close = prices,
                       Volume = volume\<rparr>;
                 df = df\<lparr>High := map (\<lambda>(a, h, c). max a (max h c))
                                    (zip (Open df) (zip (High df) (Close df)))\<rparr>;
                 df = df\<lparr>Low := map (\<lambda>(a, l, c). min a (min l c))
                                    (zip (Open df) (zip (Low df) (Close df)))\<rparr>
             in Inr (df, g5))"

text \<open>
  \<^verbatim>\<open>generate_multiple_stocks\<close>: for each symbol in turn, three single uniform draws for
  the initial price, the drift and the volatility, then \<^verbatim>\<open>generate_stock_prices\<close>; the
  result is stored in a dictionary under the symbol (a repeated symbol replaces the
  earlier entry). \<open>clock i\<close> is what the clock shows during the iteration with index \<open>i\<close>.
\<close>

fun dict_set :: "('k \<times> 'v) list \<Rightarrow> 'k \<Rightarrow> 'v \<Rightarrow> ('k \<times> 'v) list" where
  "dict_set [] k v = [(k, v)]"
| "dict_set ((k', v') # d) k v =
     (if k' = k then (k, v) # d else (k', v') # dict_set d k v)"

fun multiple_loop ::
  "'g rng_ops \<Rightarrow> (nat \<Rightarrow> timestamp) \<Rightarrow> nat \<Rightarrow> 'g \<Rightarrow> string list \<Rightarrow> nat
     \<Rightarrow> (string \<times> dataframe) list \<Rightarrow> error + ((string \<times> dataframe) list \<times> 'g)" where
  "multiple_loop ops clock i g [] days data = Inr (data, g)"
| "multiple_loop ops clock i g (symbol # rest) days data =
     (case uniform ops 50 200 g of (initial_price, g1) \<Rightarrow>
      case uniform ops (- 0.0005) 0.001 g1 of (drift, g2) \<Rightarrow>
      case uniform ops 0.01 0.03 g2 of (volatility, g3) \<Rightarrow>
      case generate_stock_prices ops (clock i) g3 symbol days initial_price drift volatility of
        Inl e \<Rightarrow> Inl e
      | Inr (df, g4) \<Rightarrow>
          multiple_loop ops clock (Suc i) g4 rest days (dict_set data symbol df))"

definition generate_multiple_stocks ::
  "'g rng_ops \<Rightarrow> (nat \<Rightarrow> timestamp) \<Rightarrow> 'g \<Rightarrow> string list \<Rightarrow> nat
     \<Rightarrow> error + ((string \<times> dataframe) list \<times> 'g)" where
  "generate_multiple_stocks ops clock g symbols days = multiple_loop ops clock 0 g symbols days []"

text \<open>
  The random stream is global: \<^verbatim>\<open>MarketDataFetcher(seed)\<close> calls \<^verbatim>\<open>np.random.seed(seed)\<close>,
  which replaces the state of the stream for the whole process, and a fetcher object
  holds no state of its own, so a call on any fetcher draws from the one stream. What
  happens in a process is therefore a sequence of events on the global state: the
  construction of a fetcher, or a call of one of the two generating methods, with the
  clock readings the call sees (\<open>clock 0\<close> for \<^verbatim>\<open>generate_stock_prices\<close>). An exception
  ends the sequence.
\<close>

datatype call =
  Single string nat real real real
| Multiple "string list" nat

datatype gen_output =
  Frame dataframe
| Frames "(string \<times> dataframe) list"

datatype event =
  Construct int
| Call "nat \<Rightarrow> timestamp" call

definition fetcher_init :: "'g rng_ops \<Rightarrow> int \<Rightarrow> 'g \<Rightarrow> 'g" where
  "fetcher_init ops seed g = seed_state ops seed"

fun do_call ::
  "'g rng_ops \<Rightarrow> (nat \<Rightarrow> timestamp) \<Rightarrow> 'g \<Rightarrow> call \<Rightarrow> error + (gen_output \<times> 'g)" where
  "do_call ops clock g (Single symbol days initial_price drift volatility) =
     (case generate_stock_prices ops (clock 0) g symbol days initial_price drift volatility of
        Inl e \<Rightarrow> Inl e
      | Inr (df, g') \<Rightarrow> Inr (Frame df, g'))"
| "do_call ops clock g (Multiple symbols days) =
     (case generate_multiple_stocks ops clock g symbols days of
        Inl e \<Rightarrow> Inl e
      | Inr (data, g') \<Rightarrow> Inr (Frames data, g'))"

fun exec :: "'g rng_ops \<Rightarrow> 'g \<Rightarrow> event list \<Rightarrow> error + gen_output list" where
  "exec ops g [] = Inr []"
| "exec ops g (Construct seed # es) = exec ops (fetcher_init ops seed g) es"
| "exec ops g (Call clock c # es) =
     (case do_call ops clock g c of
        Inl e \<Rightarrow> Inl e
      | Inr (out, g') \<Rightarrow>
          (case exec ops g' es of
             Inl e \<Rightarrow> Inl e
           | Inr outs \<Rightarrow> Inr (out # outs)))"

text \<open>
  A run of the generator on its own: a fetcher is constructed with a seed, then the
  calls are issued in order, and nothing else touches the stream in between. \<open>g0\<close> is the
  state the stream had before.
\<close>

definition run ::
  "'g rng_ops \<Rightarrow> 'g \<Rightarrow> int \<Rightarrow> ((nat \<Rightarrow> timestamp) \<times> call) list \<Rightarrow> error + gen_output list" where
  "run ops g0 seed calls = exec ops g0 (Construct seed # map (\<lambda>(clock, c). Call clock c) calls)"

text \<open>
  A degenerate random stream for evaluating the generator at concrete inputs: the state
  counts the draws, a normal draw returns its mean, a uniform draw the low end of its
  range, and an integer draw the low end of its range plus the state (reduced to the
  width of the range).
\<close>

definition counting_rng :: "int rng_ops" where
  "counting_rng =
     \<lparr>seed_state = (\<lambda>seed. seed),
      normal = (\<lambda>mu sigma g. (mu, g + 1)),
      uniform = (\<lambda>lo hi g. (lo, g + 1)),
      randint = (\<lambda>lo hi g. (lo + g mod (hi - lo), g + 1))\<rparr>"

section \<open>Reference definitions\<close>

text \<open>
  The quantities the properties below are stated with, over plain real lists: the
  arithmetic mean, the population standard deviation (divisor \<open>n\<close>), the sample standard
  deviation (divisor \<open>n - 1\<close>), the prefix maximum and the drawdown at an index, the
  trailing window of a rolling computation, and the positive and negative daily changes
  that the RSI averages.
\<close>

definition mean_of :: "real list \<Rightarrow> real" where
  "mean_of xs = sum_list xs / real (length xs)"

definition population_std :: "real list \<Rightarrow> real" where
  "population_std xs = sqrt ((\<Sum>x\<leftarrow>xs. (x - mean_of xs)\<^sup>2) / real (length xs))"

definition sample_std :: "real list \<Rightarrow> real" where
  "sample_std xs = sqrt ((\<Sum>x\<leftarrow>xs. (x - mean_of xs)\<^sup>2) / (real (length xs) - 1))"

definition prefix_max :: "real list \<Rightarrow> nat \<Rightarrow> real" where
  "prefix_max close i = Max (set (take (Suc i) close))"

definition drawdown_at :: "real list \<Rightarrow> nat \<Rightarrow> real" where
  "drawdown_at close i = (close ! i - prefix_max close i) / prefix_max close i"

definition spec_max_drawdown :: "real list \<Rightarrow> real" where
  "spec_max_drawdown close = Min (drawdown_at close ` {..< length close})"

definition window_of :: "nat \<Rightarrow> real list \<Rightarrow> nat \<Rightarrow> real list" where
  "window_of w xs i = drop (Suc i - w) (take (Suc i) xs)"

definition window_std :: "real list \<Rightarrow> real" where
  "window_std ws = sqrt ((\<Sum>x\<leftarrow>ws. (x - mean_of ws)\<^sup>2) / real (length ws - 1))"

fun gains :: "real list \<Rightarrow> real list" where
  "gains [] = []"
| "gains (c # cs) = 0 # map (\<lambda>(y, p). if 0 < y - p then y - p else 0) (zip cs (c # cs))"

fun losses :: "real list \<Rightarrow> real list" where
  "losses [] = []"
| "losses (c # cs) = 0 # map (\<lambda>(y, p). if y - p < 0 then p - y else 0) (zip cs (c # cs))"


definition no_date :: "dataframe \<Rightarrow> dataframe" where
  "no_date df = df\<lparr>Date := []\<rparr>"

definition strip_dict :: "(string \<times> dataframe) list \<Rightarrow> (string \<times> dataframe) list" where
  "strip_dict data = map (\<lambda>(s, df). (s, no_date df)) data"

fun strip_dates :: "gen_output \<Rightarrow> gen_output" where
  "strip_dates (Frame df) = Frame (no_date df)"
| "strip_dates (Frames data) = Frames (strip_dict data)"


definition fixed_clock :: "int \<Rightarrow> nat \<Rightarrow> nat \<Rightarrow> timestamp" where
  "fixed_clock d m i = \<lparr>ordinal = d, micros = m\<rparr>"

section \<open>Properties\<close>

subsection \<open>Returns\<close>

lemma zip_take_length: "zip xs (take (length xs) ys) = zip xs ys"
proof (induction xs arbitrary: ys)
  case Nil
  show ?case by simp
next
  case (Cons a xs)
  show ?case by (cases ys) (simp_all add: Cons.IH)
qed

lemma zip_shift1: "zip (x # xs) (shift1 (x # xs)) = (x, NaN) # zip xs (x # xs)"
  by (simp add: shift1_def zip_take_length)

lemma pct_change_Cons:
  "pct_change (x # xs) = NaN # map (\<lambda>(y, p). fsub (fdiv y p) (Fin 1)) (zip xs (x # xs))"
  by (cases x) (simp_all add: pct_change_def zip_shift1 fsub_def)

lemma returns_step_Fin:
  "p \<noteq> 0 \<Longrightarrow> fsub (fdiv (Fin y) (Fin p)) (Fin 1) = Fin (y / p - 1)"
  by (simp add: fsub_def)

lemma dropna_ratio:
  "\<forall>c \<in> set (c0 # cs). c \<noteq> 0 \<Longrightarrow>
   dropna (map (\<lambda>(y, p). fsub (fdiv y p) (Fin 1)) (zip (map Fin cs) (map Fin (c0 # cs))))
     = map (\<lambda>(y, p). Fin (y / p - 1)) (zip cs (c0 # cs))"
proof (induction cs arbitrary: c0)
  case Nil
  then show ?case by (simp add: dropna_def)
next
  case (Cons c cs)
  have tl: "dropna (map (\<lambda>(y, p). fsub (fdiv y p) (Fin 1)) (zip (map Fin cs) (map Fin (c # cs))))
     = map (\<lambda>(y, p). Fin (y / p - 1)) (zip cs (c # cs))"
    using Cons.prems by (intro Cons.IH) simp
  have hd: "fsub (fdiv (Fin c) (Fin c0)) (Fin 1) = Fin (c / c0 - 1)"
    using Cons.prems by (intro returns_step_Fin) simp
  show ?case
    using tl hd by (simp add: dropna_def isnan_def)
qed

lemma compute_returns_Cons:
  assumes "\<forall>c \<in> set (c0 # cs). c \<noteq> 0"
  shows "compute_returns (c0 # cs) = map (\<lambda>(y, p). Fin (y / p - 1)) (zip cs (c0 # cs))"
proof -
  have "compute_returns (c0 # cs)
      = dropna (map (\<lambda>(y, p). fsub (fdiv y p) (Fin 1)) (zip (map Fin cs) (map Fin (c0 # cs))))"
    by (simp add: compute_returns_def pct_change_Cons dropna_def isnan_def)
  then show ?thesis
    using dropna_ratio [OF assms] by simp
qed

text \<open>
  C4. For a price column of length \<open>n \<ge> 1\<close> with nonzero prices, \<^verbatim>\<open>compute_returns\<close>
  has exactly \<open>n - 1\<close> elements, and the element that comes from source position
  \<open>i \<ge> 1\<close> (it sits at position \<open>i - 1\<close> of the result) is
  \<open>close[i] / close[i-1] - 1\<close>: the first source point is dropped, not zero-filled.
\<close>

theorem compute_returns_correct:
  assumes "close \<noteq> []" and "\<forall>c \<in> set close. c \<noteq> 0"
  shows "length (compute_returns close) = length close - 1 \<and>
         (\<forall>i. 1 \<le> i \<and> i < length close \<longrightarrow>
            compute_returns close ! (i - 1) = Fin (close ! i / close ! (i - 1) - 1))"
proof -
  from assms(1) obtain c0 cs where close: "close = c0 # cs"
    by (cases close) auto
  have eq: "compute_returns close = map (\<lambda>(y, p). Fin (y / p - 1)) (zip cs (c0 # cs))"
    using assms(2) unfolding close by (rule compute_returns_Cons)
  have len: "length (compute_returns close) = length close - 1"
    unfolding eq by (simp add: close)
  have nth: "compute_returns close ! (i - 1) = Fin (close ! i / close ! (i - 1) - 1)"
    if "1 \<le> i" "i < length close" for i
  proof -
    from that obtain j where i: "i = Suc j" and j: "j < length cs"
      by (cases i) (auto simp: close)
    show ?thesis
      unfolding eq using j by (simp add: i close)
  qed
  show ?thesis
    using len nth by blast
qed

theorem compute_returns_correct_witness:
  "length (compute_returns [100, 110, 99]) = 2 \<and>
   compute_returns [100, 110, 99] ! 0 = Fin (1 / 10) \<and>
   compute_returns [100, 110, 99] ! 1 = Fin (- 1 / 10)"
proof -
  have h1: "[100, 110, 99 :: real] \<noteq> []" by simp
  have h2: "\<forall>c \<in> set [100, 110, 99 :: real]. c \<noteq> 0" by simp
  note t = compute_returns_correct [OF h1 h2]
  have l: "length (compute_returns [100, 110, 99]) = 2"
    using t by simp
  have a: "compute_returns [100, 110, 99] ! 0 = Fin (1 / 10)"
    using t [THEN conjunct2, rule_format, of 1] by simp
  have b: "compute_returns [100, 110, 99] ! 1 = Fin (- 1 / 10)"
    using t [THEN conjunct2, rule_format, of 2] by simp
  show ?thesis
    using l a b by blast
qed

subsection \<open>Series without NaN\<close>

text \<open>
  On a Series all of whose entries are finite, the reductions compute the reference
  quantities.
\<close>

lemma dropna_map_Fin: "dropna (map Fin xs) = map Fin xs"
  by (induction xs) (simp_all add: dropna_def isnan_def)

lemma fsum_map_Fin: "fsum (map Fin xs) = Fin (sum_list xs)"
  by (induction xs) simp_all

lemma nanmean_map_Fin: "xs \<noteq> [] \<Longrightarrow> nanmean (map Fin xs) = Fin (mean_of xs)"
  by (simp add: nanmean_def dropna_map_Fin fsum_map_Fin mean_of_def Let_def)

lemma sq_dev_map_Fin:
  "map (\<lambda>x. fmul (fsub (Fin a) x) (fsub (Fin a) x)) (map Fin xs) = map Fin (map (\<lambda>x. (x - a)\<^sup>2) xs)"
  by (induction xs) (simp_all add: fsub_def power2_eq_square algebra_simps)

lemma nanvar_map_Fin:
  assumes "ddof < length xs"
  shows "nanvar ddof (map Fin xs) = Fin ((\<Sum>x\<leftarrow>xs. (x - mean_of xs)\<^sup>2) / real (length xs - ddof))"
proof -
  have ne: "xs \<noteq> []" using assms by auto
  have avg: "fdiv (fsum (map Fin xs)) (Fin (real (length (map Fin xs)))) = Fin (mean_of xs)"
    using ne by (simp add: fsum_map_Fin mean_of_def)
  have d: "real (length xs - ddof) \<noteq> 0" using assms by simp
  have "nanvar ddof (map Fin xs)
      = fdiv (fsum (map (\<lambda>x. fmul (fsub (Fin (mean_of xs)) x) (fsub (Fin (mean_of xs)) x)) (map Fin xs)))
             (Fin (real (length xs - ddof)))"
    using assms unfolding nanvar_def Let_def dropna_map_Fin avg by simp
  also have "\<dots> = fdiv (Fin (\<Sum>x\<leftarrow>xs. (x - mean_of xs)\<^sup>2)) (Fin (real (length xs - ddof)))"
    unfolding sq_dev_map_Fin fsum_map_Fin ..
  also have "\<dots> = Fin ((\<Sum>x\<leftarrow>xs. (x - mean_of xs)\<^sup>2) / real (length xs - ddof))"
    using d by simp
  finally show ?thesis .
qed

lemma sum_sq_nonneg: "0 \<le> (\<Sum>x\<leftarrow>xs. (x - (a::real))\<^sup>2)"
  by (induction xs) simp_all

lemma nanstd_map_Fin:
  assumes "ddof < length xs"
  shows "nanstd ddof (map Fin xs) = Fin (sqrt ((\<Sum>x\<leftarrow>xs. (x - mean_of xs)\<^sup>2) / real (length xs - ddof)))"
proof -
  have "0 \<le> (\<Sum>x\<leftarrow>xs. (x - mean_of xs)\<^sup>2) / real (length xs - ddof)"
    using sum_sq_nonneg by simp
  then show ?thesis
    unfolding nanstd_def nanvar_map_Fin [OF assms] by simp
qed

subsection \<open>Mean\<close>

text \<open>
  C6, as the code has it. \<^verbatim>\<open>compute_mean\<close> on an empty series returns a value, NaN:
  \<^verbatim>\<open>np.mean\<close> of an empty Series is NaN, and nothing in the function checks its
  argument or raises.
\<close>

theorem compute_mean_empty: "compute_mean [] = Inr NaN"
  by (simp add: compute_mean_def np_mean_def nanmean_def dropna_def)

text \<open>The claim as stated fails: the result on the empty series is not an error.\<close>

theorem compute_mean_empty_counterexample: "compute_mean [] \<noteq> Inl InvalidInput"
  by (simp add: compute_mean_def)

subsection \<open>Volatility\<close>

text \<open>
  C7, as the code has it. For a non-empty return series of finite values,
  \<^verbatim>\<open>compute_volatility\<close> with \<^verbatim>\<open>annualize = False\<close> is the population standard deviation
  of the returns (divisor \<open>n\<close>, since \<^verbatim>\<open>np.std\<close> has \<^verbatim>\<open>ddof=0\<close>), and with
  \<^verbatim>\<open>annualize = True\<close> it is that value times \<open>sqrt 252\<close>.
\<close>

theorem compute_volatility_population:
  assumes "rs \<noteq> []"
  shows "compute_volatility (map Fin rs) False = Fin (population_std rs) \<and>
         compute_volatility (map Fin rs) True = Fin (population_std rs * sqrt 252)"
proof -
  have "0 < length rs" using assms by simp
  then have "np_std (map Fin rs) = Fin (population_std rs)"
    unfolding np_std_def population_std_def by (simp add: nanstd_map_Fin)
  then show ?thesis
    by (simp add: compute_volatility_def)
qed

theorem compute_volatility_population_witness:
  "compute_volatility [Fin 0, Fin 2] False = Fin 1 \<and>
   compute_volatility [Fin 0, Fin 2] True = Fin (sqrt 252)"
proof -
  have ne: "[0, 2 :: real] \<noteq> []" by simp
  have p: "population_std [0, 2] = 1"
    by (simp add: population_std_def mean_of_def)
  show ?thesis
    using compute_volatility_population [OF ne] by (simp add: p)
qed

text \<open>
  The claim as stated fails: on the returns \<open>[0, 2]\<close> the sample standard deviation is
  \<open>sqrt 2\<close>, and the code returns 1.
\<close>

theorem compute_volatility_sample_counterexample:
  "compute_volatility [Fin 0, Fin 2] False \<noteq> Fin (sample_std [0, 2])"
proof -
  have a: "compute_volatility [Fin 0, Fin 2] False = Fin 1"
    by (simp add: compute_volatility_def np_std_def nanstd_def nanvar_def dropna_def isnan_def fsub_def)
  have b: "sample_std [0, 2] = sqrt 2"
    by (simp add: sample_std_def mean_of_def)
  show ?thesis unfolding a b by simp
qed

subsection \<open>Maximum drawdown\<close>

lemma length_cummax_from: "length (cummax_from m xs) = length xs"
  by (induction xs arbitrary: m) simp_all

lemma length_cummax: "length (cummax xs) = length xs"
  by (cases xs) (simp_all add: length_cummax_from)

lemma cummax_from_nth:
  "i < length xs \<Longrightarrow> cummax_from m xs ! i = Max (set (m # take (Suc i) xs))"
proof (induction xs arbitrary: m i)
  case Nil
  then show ?case by simp
next
  case (Cons x xs)
  show ?case
  proof (cases i)
    case 0
    then show ?thesis by simp
  next
    case (Suc k)
    then have k: "k < length xs" using Cons.prems by simp
    have "cummax_from m (x # xs) ! i = Max (set (max m x # take (Suc k) xs))"
      using Cons.IH [OF k] by (simp add: Suc)
    also have "\<dots> = Max (set (m # take (Suc i) (x # xs)))"
    proof -
      have "set (take (Suc k) xs) \<noteq> {}" using k by (cases xs) simp_all
      then show ?thesis by (simp add: Suc max.assoc)
    qed
    finally show ?thesis .
  qed
qed

lemma cummax_nth: "i < length xs \<Longrightarrow> cummax xs ! i = prefix_max xs i"
proof (cases xs)
  case Nil
  assume "i < length xs"
  then show ?thesis using Nil by simp
next
  case (Cons x ys)
  assume i: "i < length xs"
  show ?thesis
  proof (cases i)
    case 0
    then show ?thesis by (simp add: Cons prefix_max_def)
  next
    case (Suc k)
    then have "k < length ys" using i Cons by simp
    then show ?thesis
      by (simp add: Cons Suc prefix_max_def cummax_from_nth)
  qed
qed

lemma prefix_max_ge: "i < length xs \<Longrightarrow> j \<le> i \<Longrightarrow> xs ! j \<le> prefix_max xs i"
proof -
  assume a: "i < length xs" "j \<le> i"
  then have "xs ! j = take (Suc i) xs ! j" by simp
  moreover have "j < length (take (Suc i) xs)" using a by simp
  ultimately have "xs ! j \<in> set (take (Suc i) xs)"
    by (metis nth_mem)
  then show ?thesis
    unfolding prefix_max_def by (intro Max_ge) simp_all
qed

lemma prefix_max_pos:
  assumes "i < length xs" and "\<forall>c \<in> set xs. 0 < c"
  shows "0 < prefix_max xs i"
proof -
  have "0 < xs ! i" using assms by simp
  then show ?thesis
    using prefix_max_ge [OF assms(1) order_refl] by linarith
qed

lemma drawdown_nth:
  assumes "i < length close" and "\<forall>c \<in> set close. 0 < c"
  shows "drawdown close ! i = Fin (drawdown_at close i)"
proof -
  have p: "prefix_max close i \<noteq> 0"
    using prefix_max_pos [OF assms] by simp
  have "drawdown close ! i
      = fdiv (fsub (Fin (close ! i)) (Fin (cummax close ! i))) (Fin (cummax close ! i))"
    using assms(1) by (simp add: drawdown_def length_cummax)
  also have "\<dots> = Fin (drawdown_at close i)"
    using p by (simp add: cummax_nth [OF assms(1)] fsub_def drawdown_at_def)
  finally show ?thesis .
qed

lemma drawdown_map_Fin:
  assumes "\<forall>c \<in> set close. 0 < c"
  shows "drawdown close = map Fin (map (drawdown_at close) [0 ..< length close])"
proof (rule nth_equalityI)
  show "length (drawdown close) = length (map Fin (map (drawdown_at close) [0 ..< length close]))"
    by (simp add: drawdown_def length_cummax)
next
  fix i assume "i < length (drawdown close)"
  then have i: "i < length close" by (simp add: drawdown_def length_cummax)
  show "drawdown close ! i = map Fin (map (drawdown_at close) [0 ..< length close]) ! i"
    using drawdown_nth [OF i assms] i by simp
qed

lemma foldl_fmin2_Fin: "foldl fmin2 (Fin a) (map Fin ys) = Fin (Min (set (a # ys)))"
proof (induction ys arbitrary: a)
  case Nil
  show ?case by simp
next
  case (Cons y ys)
  have "fmin2 (Fin a) (Fin y) = Fin (min a y)"
    by (simp add: fmin2_def min_def)
  then have "foldl fmin2 (Fin a) (map Fin (y # ys)) = Fin (Min (set (min a y # ys)))"
    using Cons.IH [of "min a y"] by simp
  also have "Min (set (min a y # ys)) = Min (set (a # y # ys))"
    by (cases "ys = []") (simp_all add: min.assoc)
  finally show ?case .
qed

lemma series_min_map_Fin:
  assumes "xs \<noteq> []"
  shows "series_min (map Fin xs) = Fin (Min (set xs))"
proof -
  from assms obtain y ys where xs: "xs = y # ys" by (cases xs) auto
  have "series_min (map Fin xs) = foldl fmin2 (Fin y) (map Fin ys)"
    unfolding series_min_def dropna_map_Fin by (simp add: xs)
  then show ?thesis
    unfolding xs foldl_fmin2_Fin .
qed

lemma max_drawdown_eq:
  assumes "close \<noteq> []" and "\<forall>c \<in> set close. 0 < c"
  shows "compute_max_drawdown close = Fin (spec_max_drawdown close)"
proof -
  have ne: "map (drawdown_at close) [0 ..< length close] \<noteq> []"
    using assms(1) by simp
  have "set (map (drawdown_at close) [0 ..< length close]) = drawdown_at close ` {..< length close}"
    by (simp add: atLeast0LessThan)
  then show ?thesis
    unfolding compute_max_drawdown_def drawdown_map_Fin [OF assms(2)] series_min_map_Fin [OF ne]
      spec_max_drawdown_def by simp
qed

lemma drawdown_at_le0:
  assumes "i < length close" and "\<forall>c \<in> set close. 0 < c"
  shows "drawdown_at close i \<le> 0"
  unfolding drawdown_at_def
  using prefix_max_pos [OF assms] prefix_max_ge [OF assms(1) order_refl]
  by (simp add: divide_le_0_iff)

lemma drawdown_at_eq0:
  assumes "i < length close" and "\<forall>c \<in> set close. 0 < c"
  shows "drawdown_at close i = 0 \<longleftrightarrow> close ! i = prefix_max close i"
  unfolding drawdown_at_def using prefix_max_pos [OF assms] by simp

lemma sorted_iff_prefix_max:
  "sorted close \<longleftrightarrow> (\<forall>i < length close. close ! i = prefix_max close i)"
proof
  assume s: "sorted close"
  show "\<forall>i < length close. close ! i = prefix_max close i"
  proof (intro allI impI)
    fix i assume i: "i < length close"
    have "prefix_max close i \<le> close ! i"
      unfolding prefix_max_def
    proof (intro Max.boundedI)
      show "finite (set (take (Suc i) close))" by simp
      show "set (take (Suc i) close) \<noteq> {}" using i by auto
      fix x assume "x \<in> set (take (Suc i) close)"
      then obtain j where "j < length (take (Suc i) close)" "x = take (Suc i) close ! j"
        by (auto simp: in_set_conv_nth)
      then have "j \<le> i" "x = close ! j" by simp_all
      then show "x \<le> close ! i"
        using s i by (simp add: sorted_iff_nth_mono)
    qed
    then show "close ! i = prefix_max close i"
      using prefix_max_ge [OF i order_refl] by simp
  qed
next
  assume a: "\<forall>i < length close. close ! i = prefix_max close i"
  show "sorted close"
    unfolding sorted_iff_nth_mono
  proof (intro allI impI)
    fix i j assume "i \<le> j" "j < length close"
    then show "close ! i \<le> close ! j"
      using prefix_max_ge [of j close i] a by simp
  qed
qed

text \<open>
  C3. For a non-empty close column of positive prices, \<^verbatim>\<open>compute_max_drawdown\<close> is the
  minimum over \<open>i\<close> of \<open>(close[i] - prefixMax[i]) / prefixMax[i]\<close>, where \<open>prefixMax[i]\<close>
  is the maximum of \<open>close[0..i]\<close>; the result is at most 0, and it is 0 exactly when the
  series is non-decreasing.
\<close>

theorem compute_max_drawdown_correct:
  assumes "close \<noteq> []" and "\<forall>c \<in> set close. 0 < c"
  shows "compute_max_drawdown close = Fin (spec_max_drawdown close) \<and>
         fle (compute_max_drawdown close) (Fin 0) \<and>
         (compute_max_drawdown close = Fin 0 \<longleftrightarrow> sorted close)"
proof -
  let ?S = "drawdown_at close ` {..< length close}"
  have fin: "finite ?S" by simp
  have ne: "?S \<noteq> {}" using assms(1) by auto
  have le: "\<forall>d \<in> ?S. d \<le> 0"
    using drawdown_at_le0 [OF _ assms(2)] by auto
  have eq: "compute_max_drawdown close = Fin (spec_max_drawdown close)"
    using assms by (rule max_drawdown_eq)
  have m_in: "spec_max_drawdown close \<in> ?S"
    unfolding spec_max_drawdown_def using fin ne by (rule Min_in)
  then have le0: "spec_max_drawdown close \<le> 0"
    using le by blast
  have "spec_max_drawdown close = 0 \<longleftrightarrow> (\<forall>d \<in> ?S. d = 0)"
  proof
    assume z: "spec_max_drawdown close = 0"
    show "\<forall>d \<in> ?S. d = 0"
    proof
      fix d assume d: "d \<in> ?S"
      then have "spec_max_drawdown close \<le> d"
        unfolding spec_max_drawdown_def using fin by (intro Min_le)
      moreover have "d \<le> 0" using le d by blast
      ultimately show "d = 0" using z by linarith
    qed
  next
    assume "\<forall>d \<in> ?S. d = 0"
    then show "spec_max_drawdown close = 0" using m_in by blast
  qed
  also have "\<dots> \<longleftrightarrow> (\<forall>i < length close. close ! i = prefix_max close i)"
    using drawdown_at_eq0 [OF _ assms(2)] by auto
  also have "\<dots> \<longleftrightarrow> sorted close"
    by (rule sorted_iff_prefix_max [symmetric])
  finally have "spec_max_drawdown close = 0 \<longleftrightarrow> sorted close" .
  then show ?thesis
    using eq le0 by (auto simp: fle_def)
qed

theorem compute_max_drawdown_correct_witness:
  "fle (compute_max_drawdown [100, 110, 105, 95, 120]) (Fin 0) \<and>
   compute_max_drawdown [100, 110, 105, 95, 120] \<noteq> Fin 0 \<and>
   compute_max_drawdown [100, 101, 101, 120] = Fin 0"
proof -
  have n1: "[100, 110, 105, 95, 120 :: real] \<noteq> []" by simp
  have p1: "\<forall>c \<in> set [100, 110, 105, 95, 120 :: real]. 0 < c" by simp
  have s1: "\<not> sorted [100, 110, 105, 95, 120 :: real]" by simp
  have n2: "[100, 101, 101, 120 :: real] \<noteq> []" by simp
  have p2: "\<forall>c \<in> set [100, 101, 101, 120 :: real]. 0 < c" by simp
  have s2: "sorted [100, 101, 101, 120 :: real]" by simp
  show ?thesis
    using compute_max_drawdown_correct [OF n1 p1] compute_max_drawdown_correct [OF n2 p2] s1 s2
    by blast
qed

subsection \<open>Rolling windows\<close>

lemma window_at_map_Fin: "window_at w (map Fin xs) i = map Fin (window_of w xs i)"
  by (simp add: window_at_def window_of_def drop_map take_map)

lemma length_window_of:
  "i < length xs \<Longrightarrow> w \<le> Suc i \<Longrightarrow> length (window_of w xs i) = w"
  by (simp add: window_of_def)

lemma length_rolling: "length (rolling agg w xs) = length xs"
  by (simp add: rolling_def)

lemma rolling_nth_full:
  assumes "i < length xs" and "w \<le> Suc i"
  shows "rolling agg w (map Fin xs) ! i = agg (map Fin (window_of w xs i))"
proof -
  have "rolling agg w (map Fin xs) ! i
      = (let obs = dropna (window_at w (map Fin xs) i) in if length obs < w then NaN else agg obs)"
    using assms(1) by (simp add: rolling_def)
  also have "\<dots> = agg (map Fin (window_of w xs i))"
    using length_window_of [OF assms]
    by (simp add: window_at_map_Fin dropna_map_Fin Let_def)
  finally show ?thesis .
qed

lemma rolling_mean_nth:
  assumes "i < length xs" and "w \<le> Suc i" and "1 \<le> w"
  shows "rolling_mean w (map Fin xs) ! i = Fin (mean_of (window_of w xs i))"
proof -
  have "window_of w xs i \<noteq> []"
    using length_window_of [OF assms(1,2)] assms(3) by auto
  then show ?thesis
    unfolding rolling_mean_def rolling_nth_full [OF assms(1,2)]
    by (rule nanmean_map_Fin)
qed

lemma rolling_std_nth:
  assumes "i < length xs" and "w \<le> Suc i" and "2 \<le> w"
  shows "rolling_std w (map Fin xs) ! i = Fin (window_std (window_of w xs i))"
proof -
  have "1 < length (window_of w xs i)"
    using length_window_of [OF assms(1,2)] assms(3) by auto
  then show ?thesis
    unfolding rolling_std_def rolling_nth_full [OF assms(1,2)] window_std_def
    by (rule nanstd_map_Fin)
qed

lemma window_std_nonneg: "0 \<le> window_std ws"
  unfolding window_std_def using sum_sq_nonneg by simp

subsection \<open>RSI\<close>

lemma diff_Cons:
  "diff (x # xs) = fsub x NaN # map (\<lambda>(y, p). fsub y p) (zip xs (x # xs))"
  by (simp add: diff_def zip_shift1)

lemma fsub_NaN: "fsub x NaN = NaN"
  by (cases x) (simp_all add: fsub_def)

lemma gain_raw_tail:
  "map (\<lambda>d. if flt (Fin 0) d then d else Fin 0)
       (map (\<lambda>(y, p). fsub y p) (zip (map Fin cs) (map Fin (c # cs))))
   = map Fin (map (\<lambda>(y, p). if 0 < y - p then y - p else 0) (zip cs (c # cs)))"
  by (induction cs arbitrary: c) (simp_all add: fsub_def)

lemma loss_raw_tail:
  "map fneg (map (\<lambda>d. if flt d (Fin 0) then d else Fin 0)
       (map (\<lambda>(y, p). fsub y p) (zip (map Fin cs) (map Fin (c # cs)))))
   = map Fin (map (\<lambda>(y, p). if y - p < 0 then p - y else 0) (zip cs (c # cs)))"
  by (induction cs arbitrary: c) (simp_all add: fsub_def)

lemma gain_raw_Fin:
  "map (\<lambda>d. if flt (Fin 0) d then d else Fin 0) (diff (map Fin prices)) = map Fin (gains prices)"
proof (cases prices)
  case Nil
  then show ?thesis by (simp add: diff_def shift1_def)
next
  case (Cons c cs)
  show ?thesis
    unfolding Cons using gain_raw_tail [of cs c]
    by (simp add: diff_Cons fsub_NaN)
qed

lemma loss_raw_Fin:
  "map fneg (map (\<lambda>d. if flt d (Fin 0) then d else Fin 0) (diff (map Fin prices)))
     = map Fin (losses prices)"
proof (cases prices)
  case Nil
  then show ?thesis by (simp add: diff_def shift1_def)
next
  case (Cons c cs)
  show ?thesis
    unfolding Cons using loss_raw_tail [of cs c]
    by (simp add: diff_Cons fsub_NaN)
qed

lemma length_gains: "length (gains prices) = length prices"
  by (cases prices) simp_all

lemma length_losses: "length (losses prices) = length prices"
  by (cases prices) simp_all

lemma rsi_gain_eq: "rsi_gain prices w = rolling_mean w (map Fin (gains prices))"
  unfolding rsi_gain_def Let_def gain_raw_Fin ..

lemma rsi_loss_eq: "rsi_loss prices w = rolling_mean w (map Fin (losses prices))"
  unfolding rsi_loss_def Let_def loss_raw_Fin ..

lemma rsi_gain_nth:
  assumes "i < length prices" and "w \<le> Suc i" and "1 \<le> w"
  shows "rsi_gain prices w ! i = Fin (mean_of (window_of w (gains prices) i))"
  unfolding rsi_gain_eq using assms by (intro rolling_mean_nth) (simp_all add: length_gains)

lemma rsi_loss_nth:
  assumes "i < length prices" and "w \<le> Suc i" and "1 \<le> w"
  shows "rsi_loss prices w ! i = Fin (mean_of (window_of w (losses prices) i))"
  unfolding rsi_loss_eq using assms by (intro rolling_mean_nth) (simp_all add: length_losses)

lemma length_rsi_gain: "length (rsi_gain prices w) = length prices"
  by (simp add: rsi_gain_eq rolling_mean_def length_rolling length_gains)

lemma length_rsi_loss: "length (rsi_loss prices w) = length prices"
  by (simp add: rsi_loss_eq rolling_mean_def length_rolling length_losses)

lemma compute_rsi_nth:
  assumes "i < length prices"
  shows "compute_rsi prices w ! i =
     fsub (Fin 100) (fdiv (Fin 100) (fadd (Fin 1) (fdiv (rsi_gain prices w ! i) (rsi_loss prices w ! i))))"
  using assms by (simp add: compute_rsi_def Let_def length_rsi_gain length_rsi_loss)

lemma gains_nth:
  assumes "1 \<le> j" and "j < length close"
  shows "gains close ! j = (if 0 < close ! j - close ! (j - 1) then close ! j - close ! (j - 1) else 0)"
proof -
  from assms obtain c cs where c: "close = c # cs" by (cases close) auto
  from assms obtain k where k: "j = Suc k" by (cases j) auto
  have "k < length cs" using assms(2) by (simp add: c k)
  then show ?thesis by (simp add: c k)
qed

lemma losses_nth:
  assumes "1 \<le> j" and "j < length close"
  shows "losses close ! j = (if close ! j - close ! (j - 1) < 0 then close ! (j - 1) - close ! j else 0)"
proof -
  from assms obtain c cs where c: "close = c # cs" by (cases close) auto
  from assms obtain k where k: "j = Suc k" by (cases j) auto
  have "k < length cs" using assms(2) by (simp add: c k)
  then show ?thesis by (simp add: c k)
qed

lemma window_of_elem:
  assumes "x \<in> set (window_of w xs i)"
  shows "\<exists>j. Suc i - w \<le> j \<and> j \<le> i \<and> j < length xs \<and> x = xs ! j"
proof -
  from assms obtain k where k: "k < length (window_of w xs i)" and x: "x = window_of w xs i ! k"
    by (auto simp: in_set_conv_nth)
  have "k < min (length xs) (Suc i) - (Suc i - w)"
    using k by (simp add: window_of_def)
  then have l: "(Suc i - w) + k < min (length xs) (Suc i)"
    by arith
  have "x = xs ! ((Suc i - w) + k)"
    using l unfolding x window_of_def by simp
  then show ?thesis
    using l by (intro exI [of _ "(Suc i - w) + k"]) simp
qed

lemma mean_of_zero: "\<forall>x \<in> set xs. x = 0 \<Longrightarrow> mean_of xs = 0"
proof -
  assume "\<forall>x \<in> set xs. x = 0"
  then have "sum_list xs = 0" by (induction xs) simp_all
  then show ?thesis by (simp add: mean_of_def)
qed

lemma sum_list_pos: "xs \<noteq> [] \<Longrightarrow> \<forall>x \<in> set xs. 0 < (x::real) \<Longrightarrow> 0 < sum_list xs"
proof (induction xs)
  case Nil
  then show ?case by simp
next
  case (Cons a xs)
  show ?case
  proof (cases "xs = []")
    case True
    then show ?thesis using Cons.prems by simp
  next
    case False
    then have "0 < sum_list xs" using Cons by simp
    then show ?thesis using Cons.prems by simp
  qed
qed

lemma mean_of_pos: "xs \<noteq> [] \<Longrightarrow> \<forall>x \<in> set xs. 0 < x \<Longrightarrow> 0 < mean_of xs"
  using sum_list_pos [of xs] by (simp add: mean_of_def)

lemma rsi_increasing:
  assumes "1 \<le> w" and "w \<le> i" and "i < length close"
    and inc: "\<forall>j. Suc j < length close \<longrightarrow> close ! j < close ! Suc j"
  shows "rsi_loss close w ! i = Fin 0" and "rsi_gain close w ! i \<noteq> Fin 0"
proof -
  have wi: "w \<le> Suc i" using assms(2) by simp
  have step: "close ! (j - 1) < close ! j" if "1 \<le> j" "j < length close" for j
  proof -
    from that obtain k where "j = Suc k" by (cases j) auto
    then show ?thesis using inc that by simp
  qed
  have lz: "\<forall>x \<in> set (window_of w (losses close) i). x = 0"
  proof
    fix x assume "x \<in> set (window_of w (losses close) i)"
    then obtain j where j: "Suc i - w \<le> j" "j < length (losses close)" "x = losses close ! j"
      using window_of_elem by blast
    have j1: "1 \<le> j" using j(1) assms(2) by simp
    have jl: "j < length close" using j(2) by (simp add: length_losses)
    show "x = 0"
      unfolding j(3) losses_nth [OF j1 jl] using step [OF j1 jl] by simp
  qed
  have gp: "\<forall>x \<in> set (window_of w (gains close) i). 0 < x"
  proof
    fix x assume "x \<in> set (window_of w (gains close) i)"
    then obtain j where j: "Suc i - w \<le> j" "j < length (gains close)" "x = gains close ! j"
      using window_of_elem by blast
    have j1: "1 \<le> j" using j(1) assms(2) by simp
    have jl: "j < length close" using j(2) by (simp add: length_gains)
    show "0 < x"
      unfolding j(3) gains_nth [OF j1 jl] using step [OF j1 jl] by simp
  qed
  have "length (window_of w (gains close) i) = w"
    using assms(3) wi by (intro length_window_of) (simp_all add: length_gains)
  then have ne: "window_of w (gains close) i \<noteq> []"
    using assms(1) by auto
  show "rsi_loss close w ! i = Fin 0"
    unfolding rsi_loss_nth [OF assms(3) wi assms(1)] using mean_of_zero [OF lz] by simp
  show "rsi_gain close w ! i \<noteq> Fin 0"
    unfolding rsi_gain_nth [OF assms(3) wi assms(1)] using mean_of_pos [OF ne gp] by simp
qed

text \<open>
  C5, as the code has it. For a window \<open>w \<ge> 1\<close> and an index \<open>i \<ge> w\<close>: when the rolling
  average loss is 0, \<^verbatim>\<open>compute_rsi\<close> is exactly 100 if the rolling average gain is not 0,
  and NaN if it is 0 as well. The division \<^verbatim>\<open>gain / loss\<close> is not guarded: the value 100
  comes from the division by zero giving an infinity. On a strictly increasing series the
  result is exactly 100 at every such index.
\<close>

theorem compute_rsi_zero_loss:
  assumes "1 \<le> w" and "w \<le> i" and "i < length close"
  shows "(rsi_loss close w ! i = Fin 0 \<longrightarrow>
            compute_rsi close w ! i = (if rsi_gain close w ! i = Fin 0 then NaN else Fin 100)) \<and>
         ((\<forall>j. Suc j < length close \<longrightarrow> close ! j < close ! Suc j) \<longrightarrow>
            compute_rsi close w ! i = Fin 100)"
proof -
  have wi: "w \<le> Suc i" using assms(2) by simp
  obtain g where g: "rsi_gain close w ! i = Fin g"
    using rsi_gain_nth [OF assms(3) wi assms(1)] by blast
  have gen: "compute_rsi close w ! i = (if rsi_gain close w ! i = Fin 0 then NaN else Fin 100)"
    if "rsi_loss close w ! i = Fin 0"
    unfolding compute_rsi_nth [OF assms(3)] that g by (simp add: fsub_def)
  have "compute_rsi close w ! i = Fin 100"
    if "\<forall>j. Suc j < length close \<longrightarrow> close ! j < close ! Suc j"
    using gen rsi_increasing [OF assms that] by simp
  then show ?thesis using gen by blast
qed

theorem compute_rsi_zero_loss_witness:
  "rsi_loss [1, 2, 3] 1 ! 2 = Fin 0 \<and> compute_rsi [1, 2, 3] 1 ! 2 = Fin 100"
proof -
  have o: "(1::nat) \<le> 1" by simp
  have w: "(1::nat) \<le> 2" by simp
  have i: "(2::nat) < length [1, 2, 3 :: real]" by simp
  have inc: "\<forall>j. Suc j < length [1, 2, 3 :: real] \<longrightarrow> [1, 2, 3 :: real] ! j < [1, 2, 3] ! Suc j"
    by (simp add: nth_Cons split: nat.splits)
  note t = compute_rsi_zero_loss [OF o w i]
  have w': "(1::nat) \<le> Suc 2" by simp
  have l: "rsi_loss [1, 2, 3] 1 ! 2 = Fin 0"
    unfolding rsi_loss_nth [OF i w' o] by (simp add: window_of_def mean_of_def)
  have "compute_rsi [1, 2, 3] 1 ! 2 = Fin 100"
    using t inc by blast
  then show ?thesis using l by simp
qed

text \<open>
  The claim as stated fails: on the constant series \<open>[5, 5, 5]\<close> with window 2 the
  rolling average loss at index 2 is 0 and the result is not 100 (it is NaN).
\<close>

theorem compute_rsi_counterexample:
  "rsi_loss [5, 5, 5] 2 ! 2 = Fin 0 \<and> compute_rsi [5, 5, 5] 2 ! 2 \<noteq> Fin 100"
proof -
  have i: "(2::nat) < length [5, 5, 5 :: real]" by simp
  have w: "(2::nat) \<le> Suc 2" by simp
  have o: "(1::nat) \<le> 2" by simp
  have l: "rsi_loss [5, 5, 5] 2 ! 2 = Fin 0"
    unfolding rsi_loss_nth [OF i w o] by (simp add: window_of_def mean_of_def)
  have g: "rsi_gain [5, 5, 5] 2 ! 2 = Fin 0"
    unfolding rsi_gain_nth [OF i w o] by (simp add: window_of_def mean_of_def)
  show ?thesis
    unfolding compute_rsi_nth [OF i] l g by (simp add: fsub_def)
qed

subsection \<open>Rounding to binary64\<close>

text \<open>
  What the rounding does: it keeps the sign, it is monotone, it leaves a float64 value
  unchanged, it is within half a spacing of its argument, and it gives 0 exactly on the
  arguments of magnitude at most \<open>2 powr - 1075\<close> (half the least positive float64).
\<close>

lemma ulp64_max: "ulp64 x = 2 powr (of_int (max \<lfloor>log 2 \<bar>x\<bar>\<rfloor> (- 1022)) - 52)"
  by (simp add: ulp64_def expo_def)

lemma ulp64_expo: "ulp64 x = 2 powr (of_int (expo x) - 52)"
  by (simp add: ulp64_def)

lemma ulp64_pos: "0 < ulp64 x"
  by (simp add: ulp64_max)

lemma rhe_cases: "rhe q = \<lfloor>q\<rfloor> \<or> rhe q = \<lfloor>q\<rfloor> + 1"
  by (simp add: rhe_def Let_def)

lemma rhe_lower: "q - 1 / 2 \<le> of_int (rhe q)"
  unfolding rhe_def Let_def by (auto; linarith)

lemma rhe_upper: "of_int (rhe q) \<le> q + 1 / 2"
  unfolding rhe_def Let_def by (auto; linarith)

lemma rhe_of_int: "rhe (of_int n) = n"
  by (simp add: rhe_def)

lemma rhe_mono: "q \<le> q' \<Longrightarrow> rhe q \<le> rhe q'"
proof -
  assume le: "q \<le> q'"
  have fl: "\<lfloor>q\<rfloor> \<le> \<lfloor>q'\<rfloor>" using le by (rule floor_mono)
  show ?thesis
  proof (cases "\<lfloor>q\<rfloor> = \<lfloor>q'\<rfloor>")
    case True
    then show ?thesis using le unfolding rhe_def Let_def by (auto; linarith)
  next
    case False
    then have "\<lfloor>q\<rfloor> + 1 \<le> \<lfloor>q'\<rfloor>" using fl by simp
    moreover have "rhe q \<le> \<lfloor>q\<rfloor> + 1" using rhe_cases [of q] by auto
    moreover have "\<lfloor>q'\<rfloor> \<le> rhe q'" using rhe_cases [of q'] by auto
    ultimately show ?thesis by linarith
  qed
qed

lemma rhe_nonneg: "0 \<le> q \<Longrightarrow> 0 \<le> rhe q"
  using rhe_mono [of 0 q] rhe_of_int [of 0] by simp

lemma rhe_nonpos: "q \<le> 0 \<Longrightarrow> rhe q \<le> 0"
  using rhe_mono [of q 0] rhe_of_int [of 0] by simp


lemma rhe_near_lt: "0 \<le> d \<Longrightarrow> d < 1 / 2 \<Longrightarrow> rhe (of_int n + d) = n"
proof -
  assume d: "0 \<le> d" "d < 1 / 2"
  have f: "\<lfloor>of_int n + d\<rfloor> = n" using d by (simp add: floor_unique)
  show ?thesis unfolding rhe_def Let_def f using d by auto
qed


lemma r64_0: "r64 0 = 0"
  by (simp add: r64_def)

lemma r64_nonneg: "0 \<le> x \<Longrightarrow> 0 \<le> r64 x"
  using ulp64_pos [of x] by (simp add: r64_def rhe_nonneg)

lemma r64_nonpos: "x \<le> 0 \<Longrightarrow> r64 x \<le> 0"
proof -
  assume x: "x \<le> 0"
  have "x / ulp64 x \<le> 0" using x ulp64_pos [of x] by (simp add: divide_nonpos_pos)
  then have "rhe (x / ulp64 x) \<le> 0" by (rule rhe_nonpos)
  then have "of_int (rhe (x / ulp64 x)) * ulp64 x \<le> 0"
    using ulp64_pos [of x] by (simp add: mult_le_0_iff)
  then show ?thesis by (simp add: r64_def)
qed

lemma floor_log2_eq:
  assumes "2 powr of_int e \<le> a" and "a < 2 powr (of_int e + 1)"
  shows "\<lfloor>log 2 a\<rfloor> = e"
proof -
  have a: "0 < a" using assms(1) powr_gt_zero [of 2 "of_int e"] by linarith
  have "of_int e \<le> log 2 a" using assms(1) a by (simp add: le_log_iff)
  moreover have "log 2 a < of_int e + 1" using assms(2) a by (simp add: log_less_iff)
  ultimately show ?thesis by (simp add: floor_unique)
qed

lemma floor_log2_bounds:
  assumes "0 < a"
  shows "2 powr of_int \<lfloor>log 2 a\<rfloor> \<le> a" and "a < 2 powr (of_int \<lfloor>log 2 a\<rfloor> + 1)"
proof -
  have e: "2 powr (log 2 a) = a" using assms by simp
  have "2 powr of_int \<lfloor>log 2 a\<rfloor> \<le> 2 powr (log 2 a)"
    by (intro powr_mono) simp_all
  then show "2 powr of_int \<lfloor>log 2 a\<rfloor> \<le> a" unfolding e .
  have "log 2 a < of_int \<lfloor>log 2 a\<rfloor> + 1" by linarith
  then have "2 powr (log 2 a) < 2 powr (of_int \<lfloor>log 2 a\<rfloor> + 1)"
    by (intro powr_less_mono) simp_all
  then show "a < 2 powr (of_int \<lfloor>log 2 a\<rfloor> + 1)" unfolding e .
qed

lemma ulp64_eval:
  assumes "2 powr of_int e \<le> \<bar>x\<bar>" and "\<bar>x\<bar> < 2 powr (of_int e + 1)"
  shows "ulp64 x = 2 powr (of_int (max e (- 1022)) - 52)"
  unfolding ulp64_max floor_log2_eq [OF assms] ..

lemma r64_eval:
  assumes "2 powr of_int e \<le> \<bar>x\<bar>" and "\<bar>x\<bar> < 2 powr (of_int e + 1)"
  shows "r64 x = of_int (rhe (x / 2 powr (of_int (max e (- 1022)) - 52)))
                   * 2 powr (of_int (max e (- 1022)) - 52)"
proof -
  have "0 < \<bar>x\<bar>" using assms(1) powr_gt_zero [of 2 "of_int e"] by linarith
  then have "x \<noteq> 0" by simp
  then show ?thesis by (simp add: r64_def ulp64_eval [OF assms])
qed






lemma r64_error: "\<bar>r64 x - x\<bar> \<le> ulp64 x / 2"
proof (cases "x = 0")
  case True
  then show ?thesis using ulp64_pos [of x] by (simp add: r64_def)
next
  case False
  let ?u = "ulp64 x"
  let ?q = "x / ?u"
  have u: "0 < ?u" by (rule ulp64_pos)
  have "\<bar>of_int (rhe ?q) - ?q\<bar> \<le> 1 / 2"
    using rhe_lower [of ?q] rhe_upper [of ?q] by linarith
  then have "\<bar>of_int (rhe ?q) - ?q\<bar> * ?u \<le> 1 / 2 * ?u"
    using u by (simp add: mult_right_mono)
  moreover have "\<bar>of_int (rhe ?q) - ?q\<bar> * ?u = \<bar>of_int (rhe ?q) * ?u - x\<bar>"
  proof -
    have "of_int (rhe ?q) * ?u - x = (of_int (rhe ?q) - ?q) * ?u"
      using u by (simp add: field_simps)
    then show ?thesis using u by (simp add: abs_mult)
  qed
  ultimately show ?thesis using False by (simp add: r64_def)
qed

lemma ulp64_le: "x \<noteq> 0 \<Longrightarrow> ulp64 x \<le> \<bar>x\<bar> + 1"
proof (cases "\<lfloor>log 2 \<bar>x\<bar>\<rfloor> \<le> 0")
  case True
  then have "of_int (max \<lfloor>log 2 \<bar>x\<bar>\<rfloor> (- 1022)) - 52 \<le> (0::real)" by simp
  then have "ulp64 x \<le> 2 powr 0"
    unfolding ulp64_max by (intro powr_mono) simp_all
  then show ?thesis by simp
next
  case False
  then have m: "max \<lfloor>log 2 \<bar>x\<bar>\<rfloor> (- 1022) = \<lfloor>log 2 \<bar>x\<bar>\<rfloor>" by simp
  assume "x \<noteq> 0"
  then have x: "0 < \<bar>x\<bar>" by simp
  have "ulp64 x \<le> 2 powr of_int \<lfloor>log 2 \<bar>x\<bar>\<rfloor>"
    unfolding ulp64_max m by simp
  also have "\<dots> \<le> \<bar>x\<bar>" using floor_log2_bounds(1) [OF x] .
  finally show ?thesis by simp
qed

lemma abs_r64_le: "\<bar>r64 x\<bar> \<le> 2 * \<bar>x\<bar> + 1"
proof (cases "x = 0")
  case True
  then show ?thesis by (simp add: r64_def)
next
  case False
  then show ?thesis using r64_error [of x] ulp64_le [of x] by linarith
qed

lemma rhe_minus: "rhe (- q) = - rhe q"
proof (cases "q = of_int \<lfloor>q\<rfloor>")
  case True
  then obtain n where n: "q = of_int n" by blast
  have "- q = of_int (- n)" by (simp add: n)
  then have "rhe (- q) = - n" using rhe_of_int [of "- n"] by simp
  then show ?thesis by (simp add: n rhe_of_int)
next
  case False
  let ?f = "\<lfloor>q\<rfloor>"
  have "of_int ?f \<le> q" by simp
  then have lt: "of_int ?f < q" using False by linarith
  have ub: "q < of_int ?f + 1" by linarith
  have a: "of_int (- ?f - 1) \<le> - q" using ub by simp linarith
  have b: "- q < of_int (- ?f - 1) + 1" using lt by simp
  have fm: "\<lfloor>- q\<rfloor> = - ?f - 1"
    using a b by (rule floor_unique)
  have ev: "even (- ?f - 1) \<longleftrightarrow> odd ?f" by simp
  show ?thesis
    unfolding rhe_def Let_def fm using lt ub ev by (auto; linarith)
qed

lemma ulp64_minus: "ulp64 (- x) = ulp64 x"
  by (simp add: ulp64_max)

lemma r64_minus: "r64 (- x) = - r64 x"
  by (simp add: r64_def ulp64_minus rhe_minus)

lemma r64_le_binade_top:
  assumes "0 < x"
  shows "r64 x \<le> 2 powr (of_int (expo x) + 1)"
proof -
  let ?u = "ulp64 x"
  have u: "0 < ?u" by (rule ulp64_pos)
  have ax: "0 < \<bar>x\<bar>" using assms by simp
  have "x < 2 powr (of_int \<lfloor>log 2 \<bar>x\<bar>\<rfloor> + 1)"
    using floor_log2_bounds(2) [OF ax] assms by simp
  also have "\<dots> \<le> 2 powr (of_int (expo x) + 1)"
    unfolding expo_def by (intro powr_mono) simp_all
  finally have xb: "x < 2 powr (of_int (expo x) + 1)" .
  have "(2::real) powr 53 * ?u = 2 powr (53 + (of_int (expo x) - 52))"
    unfolding ulp64_expo by (simp only: powr_add)
  also have "53 + (of_int (expo x) - 52) = of_int (expo x) + (1::real)" by simp
  finally have split: "2 powr (of_int (expo x) + 1) = 2 powr 53 * ?u" by simp
  have p53: "(2::real) powr 53 = of_int (2 ^ 53)"
    by (simp add: powr_numeral)
  have "x / ?u \<le> of_int (2 ^ 53)"
    using xb u unfolding split p53 by (simp add: field_simps)
  then have "rhe (x / ?u) \<le> 2 ^ 53"
    using rhe_mono [of "x / ?u" "of_int (2 ^ 53)"] unfolding rhe_of_int by simp
  then have "(of_int (rhe (x / ?u)) :: real) \<le> of_int (2 ^ 53)"
    by (simp only: of_int_le_iff)
  then have "of_int (rhe (x / ?u)) * ?u \<le> of_int (2 ^ 53) * ?u"
    using u by (intro mult_right_mono) simp_all
  then show ?thesis
    using assms unfolding split p53 by (simp add: r64_def)
qed

lemma r64_ge_binade_bottom:
  assumes "0 < y" and "- 1022 \<le> \<lfloor>log 2 \<bar>y\<bar>\<rfloor>"
  shows "2 powr of_int (expo y) \<le> r64 y"
proof -
  let ?u = "ulp64 y"
  have u: "0 < ?u" by (rule ulp64_pos)
  have ay: "0 < \<bar>y\<bar>" using assms by simp
  have e: "expo y = \<lfloor>log 2 \<bar>y\<bar>\<rfloor>" using assms(2) by (simp add: expo_def)
  have yb: "2 powr of_int (expo y) \<le> y"
    using floor_log2_bounds(1) [OF ay] assms(1) unfolding e by simp
  have "(2::real) powr 52 * ?u = 2 powr (52 + (of_int (expo y) - 52))"
    unfolding ulp64_expo by (simp only: powr_add)
  also have "52 + (of_int (expo y) - 52) = (of_int (expo y) :: real)" by simp
  finally have split: "2 powr of_int (expo y) = 2 powr 52 * ?u" by simp
  have p52: "(2::real) powr 52 = of_int (2 ^ 52)"
    by (simp add: powr_numeral)
  have "of_int (2 ^ 52) \<le> y / ?u"
    using yb u unfolding split p52 by (simp add: field_simps)
  then have "2 ^ 52 \<le> rhe (y / ?u)"
    using rhe_mono [of "of_int (2 ^ 52)" "y / ?u"] unfolding rhe_of_int by simp
  then have "(of_int (2 ^ 52) :: real) \<le> of_int (rhe (y / ?u))"
    by (simp only: of_int_le_iff)
  then have "of_int (2 ^ 52) * ?u \<le> of_int (rhe (y / ?u)) * ?u"
    using u by (intro mult_right_mono) simp_all
  then show ?thesis
    using assms unfolding split p52 by (simp add: r64_def)
qed

lemma expo_mono: "0 < x \<Longrightarrow> x \<le> y \<Longrightarrow> expo x \<le> expo y"
proof -
  assume x: "0 < x" and le: "x \<le> y"
  have "log 2 \<bar>x\<bar> \<le> log 2 \<bar>y\<bar>" using x le by simp
  then have "\<lfloor>log 2 \<bar>x\<bar>\<rfloor> \<le> \<lfloor>log 2 \<bar>y\<bar>\<rfloor>" by (rule floor_mono)
  then show ?thesis by (simp add: expo_def)
qed

lemma r64_mono_pos:
  assumes "0 < x" and "x \<le> y"
  shows "r64 x \<le> r64 y"
proof (cases "expo x = expo y")
  case True
  then have u: "ulp64 x = ulp64 y" by (simp add: ulp64_expo)
  have "x / ulp64 y \<le> y / ulp64 y"
    using assms(2) ulp64_pos [of y] by (simp add: divide_right_mono)
  then have "rhe (x / ulp64 y) \<le> rhe (y / ulp64 y)" by (rule rhe_mono)
  then have "(of_int (rhe (x / ulp64 y)) :: real) \<le> of_int (rhe (y / ulp64 y))" by simp
  then have "of_int (rhe (x / ulp64 y)) * ulp64 y \<le> of_int (rhe (y / ulp64 y)) * ulp64 y"
    using ulp64_pos [of y] by (intro mult_right_mono) simp_all
  then show ?thesis using assms by (simp add: r64_def u)
next
  case False
  have y: "0 < y" using assms by simp
  have lt: "expo x < expo y" using expo_mono [OF assms] False by simp
  have "- 1022 \<le> expo x" by (simp add: expo_def)
  then have "- 1022 < expo y" using lt by simp
  then have ly: "- 1022 \<le> \<lfloor>log 2 \<bar>y\<bar>\<rfloor>" by (simp add: expo_def max_def split: if_splits)
  have "r64 x \<le> 2 powr (of_int (expo x) + 1)" using assms(1) by (rule r64_le_binade_top)
  also have "\<dots> \<le> 2 powr of_int (expo y)"
    using lt by (intro powr_mono) simp_all
  also have "\<dots> \<le> r64 y" using y ly by (rule r64_ge_binade_bottom)
  finally show ?thesis .
qed

lemma r64_mono: "x \<le> y \<Longrightarrow> r64 x \<le> r64 y"
proof -
  assume le: "x \<le> y"
  consider "0 < x" | "x \<le> 0" "0 \<le> y" | "y < 0" by linarith
  then show ?thesis
  proof cases
    case 1
    then show ?thesis using le by (rule r64_mono_pos)
  next
    case 2
    then show ?thesis using r64_nonpos [of x] r64_nonneg [of y] by linarith
  next
    case 3
    then have "0 < - y" "- y \<le> - x" using le by simp_all
    then have "r64 (- y) \<le> r64 (- x)" by (rule r64_mono_pos)
    then show ?thesis by (simp add: r64_minus)
  qed
qed

lemma r64_representable:
  assumes "- 1022 \<le> e" and "\<bar>n\<bar> < 2 ^ 53"
  shows "r64 (of_int n * 2 powr (of_int e - 52)) = of_int n * 2 powr (of_int e - 52)"
proof (cases "n = 0")
  case True
  then show ?thesis by (simp add: r64_def)
next
  case False
  define w :: real where "w = 2 powr (of_int e - 52)"
  define v :: real where "v = of_int n * w"
  have w: "0 < w" by (simp add: w_def)
  have v0: "v \<noteq> 0" using False w by (simp add: v_def)
  have av: "\<bar>v\<bar> = of_int \<bar>n\<bar> * w"
    using w by (simp add: v_def abs_mult)
  have "(of_int \<bar>n\<bar> :: real) < of_int (2 ^ 53)"
    using assms(2) by (simp only: of_int_less_iff)
  then have "\<bar>v\<bar> < of_int (2 ^ 53) * w"
    unfolding av using w by (intro mult_strict_right_mono)
  also have "(of_int (2 ^ 53) :: real) = 2 powr 53" by (simp add: powr_numeral)
  also have "(2::real) powr 53 * w = 2 powr (53 + (of_int e - 52))"
    unfolding w_def by (simp only: powr_add)
  also have "53 + (of_int e - 52) = of_int e + (1::real)" by simp
  finally have vb: "\<bar>v\<bar> < 2 powr (of_int e + 1)" .
  have "log 2 \<bar>v\<bar> < of_int e + 1"
    using vb v0 by (simp add: log_less_iff)
  then have "\<lfloor>log 2 \<bar>v\<bar>\<rfloor> \<le> e" by linarith
  then have le: "expo v \<le> e" using assms(1) by (simp add: expo_def)
  define d where "d = nat (e - expo v)"
  have d: "of_int e - 52 = real d + (of_int (expo v) - 52)"
    using le by (simp add: d_def)
  have "w = 2 powr (real d + (of_int (expo v) - 52))"
    unfolding w_def by (rule arg_cong [OF d])
  also have "\<dots> = 2 powr (real d) * 2 powr (of_int (expo v) - 52)"
    by (simp only: powr_add)
  also have "(2::real) powr (real d) = 2 ^ d" by (simp add: powr_realpow)
  finally have p: "w = 2 ^ d * ulp64 v"
    by (simp add: ulp64_expo)
  have u: "0 < ulp64 v" by (rule ulp64_pos)
  have "v = of_int n * w" by (simp add: v_def)
  also have "\<dots> = of_int n * (2 ^ d * ulp64 v)" by (simp only: p)
  finally have vv: "v = of_int (n * 2 ^ d) * ulp64 v" by simp
  have q: "v / ulp64 v = of_int (n * 2 ^ d)"
  proof -
    have "v / ulp64 v = of_int (n * 2 ^ d) * ulp64 v / ulp64 v"
      by (rule arg_cong [where f = "\<lambda>t. t / ulp64 v", OF vv])
    then show ?thesis using u by simp
  qed
  have "r64 v = of_int (rhe (v / ulp64 v)) * ulp64 v"
    using v0 by (simp add: r64_def)
  also have "\<dots> = of_int (n * 2 ^ d) * ulp64 v"
    unfolding q rhe_of_int ..
  also have "\<dots> = v" by (rule vv [symmetric])
  finally show ?thesis unfolding v_def w_def .
qed

lemma rhe_quotient_bound:
  assumes "x \<noteq> 0"
  shows "\<bar>rhe (x / ulp64 x)\<bar> \<le> 2 ^ 53"
proof -
  let ?u = "ulp64 x"
  have u: "0 < ?u" by (rule ulp64_pos)
  have ax: "0 < \<bar>x\<bar>" using assms by simp
  have "\<bar>x\<bar> < 2 powr (of_int \<lfloor>log 2 \<bar>x\<bar>\<rfloor> + 1)"
    using floor_log2_bounds(2) [OF ax] .
  also have "\<dots> \<le> 2 powr (of_int (expo x) + 1)"
    unfolding expo_def by (intro powr_mono) simp_all
  finally have xb: "\<bar>x\<bar> < 2 powr (of_int (expo x) + 1)" .
  have "(2::real) powr 53 * ?u = 2 powr (53 + (of_int (expo x) - 52))"
    unfolding ulp64_expo by (simp only: powr_add)
  also have "53 + (of_int (expo x) - 52) = of_int (expo x) + (1::real)" by simp
  finally have split: "2 powr (of_int (expo x) + 1) = 2 powr 53 * ?u" by simp
  have p53: "(2::real) powr 53 = of_int (2 ^ 53)"
    by (simp add: powr_numeral)
  have "\<bar>x\<bar> / ?u \<le> of_int (2 ^ 53)"
    using xb u unfolding split p53 by (simp add: field_simps)
  then have b: "x / ?u \<le> of_int (2 ^ 53)" "of_int (- (2 ^ 53)) \<le> x / ?u"
    using u by (simp_all add: field_simps abs_le_iff) 
  have "rhe (x / ?u) \<le> 2 ^ 53"
    using rhe_mono [OF b(1)] unfolding rhe_of_int .
  moreover have "- (2 ^ 53) \<le> rhe (x / ?u)"
    using rhe_mono [OF b(2)] unfolding rhe_of_int .
  ultimately show ?thesis by simp
qed

lemma r64_idem: "r64 (r64 x) = r64 x"
proof (cases "x = 0")
  case True
  then show ?thesis by (simp add: r64_def)
next
  case False
  define n where "n = rhe (x / ulp64 x)"
  have r: "r64 x = of_int n * 2 powr (of_int (expo x) - 52)"
    using False by (simp add: r64_def n_def ulp64_expo)
  have e: "- 1022 \<le> expo x" by (simp add: expo_def)
  have nb: "\<bar>n\<bar> \<le> 2 ^ 53" unfolding n_def using False by (rule rhe_quotient_bound)
  show ?thesis
  proof (cases "\<bar>n\<bar> < 2 ^ 53")
    case True
    show ?thesis unfolding r using e True by (rule r64_representable)
  next
    case False
    then have "\<bar>n\<bar> = 2 ^ 53" using nb by simp
    then have "n = 2 * 2 ^ 52 \<or> n = 2 * (- (2 ^ 52))" by auto
    then obtain m :: int where m: "n = 2 * m" "\<bar>m\<bar> < 2 ^ 53" by auto
    have "(2::real) powr (1 + (of_int (expo x) - 52)) = 2 powr 1 * 2 powr (of_int (expo x) - 52)"
      by (simp only: powr_add)
    then have "2 * 2 powr (of_int (expo x) - 52) = (2::real) powr (of_int (expo x + 1) - 52)"
      by (simp add: add.commute)
    then have "r64 x = of_int m * 2 powr (of_int (expo x + 1) - 52)"
      unfolding r m(1) by (simp add: mult.assoc)
    moreover have "- 1022 \<le> expo x + 1" using e by simp
    ultimately show ?thesis using r64_representable [of "expo x + 1" m] m(2) by simp
  qed
qed

lemmas pw = powr_minus_divide powr_numeral

lemma round64_0: "round64 0 = Fin 0"
  by (simp add: round64_def r64_0)

lemma round64_Fin: "\<bar>r64 x\<bar> < 2 ^ 1024 \<Longrightarrow> round64 x = Fin (r64 x)"
  by (simp add: round64_def Let_def abs_less_iff)

lemma round64_small:
  assumes "\<bar>x\<bar> \<le> 2 ^ 1022"
  shows "round64 x = Fin (r64 x)"
proof -
  have "\<bar>r64 x\<bar> \<le> 2 * \<bar>x\<bar> + 1" by (rule abs_r64_le)
  also have "\<dots> \<le> 2 * 2 ^ 1022 + 1" using assms by simp
  also have "\<dots> < (2 ^ 1024 :: real)" by simp
  finally show ?thesis by (rule round64_Fin)
qed

lemma round64_eval:
  assumes "2 powr of_int e \<le> \<bar>x\<bar>" and "\<bar>x\<bar> < 2 powr (of_int e + 1)"
    and "of_int (rhe (x / 2 powr (of_int (max e (- 1022)) - 52)))
           * 2 powr (of_int (max e (- 1022)) - 52) = r"
    and "\<bar>r\<bar> < 2 ^ 1024"
  shows "round64 x = Fin r"
proof -
  have "r64 x = r" unfolding r64_eval [OF assms(1,2)] by (rule assms(3))
  then show ?thesis using round64_Fin [of x] assms(4) by simp
qed

lemma round64_cases:
  "round64 x = Fin (r64 x) \<and> \<bar>r64 x\<bar> < 2 ^ 1024 \<or> round64 x = PInf \<or> round64 x = NInf"
  by (auto simp: round64_def Let_def)

lemma round64_not_NaN: "round64 x \<noteq> NaN"
  using round64_cases [of x] by auto

lemma round64_mono: "x \<le> y \<Longrightarrow> fle (round64 x) (round64 y)"
proof -
  assume "x \<le> y"
  then have "r64 x \<le> r64 y" by (rule r64_mono)
  then show ?thesis
    by (auto simp: round64_def Let_def fle_def)
qed

lemma round64_idem: "round64 x = Fin m \<Longrightarrow> round64 m = Fin m"
proof -
  assume a: "round64 x = Fin m"
  then have m: "m = r64 x" and b: "\<bar>r64 x\<bar> < 2 ^ 1024"
    using round64_cases [of x] by auto
  have "r64 m = m" unfolding m by (rule r64_idem)
  then show ?thesis using round64_Fin [of m] b m by simp
qed

lemma round64_nonneg_cases:
  assumes "0 \<le> x"
  shows "(\<exists>r. round64 x = Fin r \<and> 0 \<le> r) \<or> round64 x = PInf"
proof -
  have "0 \<le> r64 x" using assms by (rule r64_nonneg)
  then show ?thesis by (auto simp: round64_def Let_def)
qed

lemma r64_of_int: "\<bar>n\<bar> < 2 ^ 53 \<Longrightarrow> r64 (of_int n) = of_int n"
  using r64_representable [of 52 n] by simp

lemma round64_of_int: "\<bar>n\<bar> < 2 ^ 53 \<Longrightarrow> round64 (of_int n) = Fin (of_int n)"
proof -
  assume n: "\<bar>n\<bar> < 2 ^ 53"
  have r: "r64 (of_int n) = of_int n" using n by (rule r64_of_int)
  have "(of_int \<bar>n\<bar> :: real) < of_int (2 ^ 53)" using n by (simp only: of_int_less_iff)
  then have "\<bar>of_int n :: real\<bar> < 2 ^ 1024" by simp
  then show ?thesis using round64_Fin [of "of_int n"] r by simp
qed

lemma round64_numeral [simp]: "\<bar>numeral v :: int\<bar> < 2 ^ 53 \<Longrightarrow> round64 (numeral v) = Fin (numeral v)"
  using round64_of_int [of "numeral v"] by simp

lemma round64_1 [simp]: "round64 1 = Fin 1"
  using round64_of_int [of 1] by simp



lemma dadd_zero: "dadd (Fin 0) (Fin 0) = Fin 0"
  by (simp add: dadd_def round64_0)

subsection \<open>Sharpe ratio\<close>




























subsection \<open>Bollinger bands\<close>

lemma band_row:
  assumes m: "m = round64 mu" and s: "s = round64 sigma" and sg: "0 \<le> sigma" and k: "0 \<le> k"
    and un: "dadd m (dmul s (Fin k)) \<noteq> NaN" and ln: "dsub m (dmul s (Fin k)) \<noteq> NaN"
  shows "fle (dsub m (dmul s (Fin k))) m \<and> fle m (dadd m (dmul s (Fin k))) \<and>
         (k = 0 \<or> s = Fin 0 \<longrightarrow>
            dsub m (dmul s (Fin k)) = m \<and> m = dadd m (dmul s (Fin k)))"
proof -
  define t where "t = dmul s (Fin k)"
  have tn: "t \<noteq> NaN"
  proof
    assume "t = NaN"
    then have "dadd m t = NaN" by (cases m) (simp_all add: dadd_def)
    then show False using un by (simp add: t_def)
  qed
  consider (fin) sv where "s = Fin sv" "0 \<le> sv" | (inf) "s = PInf"
    using round64_nonneg_cases [OF sg] s by auto
  then have tc: "(\<exists>tv. t = Fin tv \<and> 0 \<le> tv \<and> (k = 0 \<or> s = Fin 0 \<longrightarrow> tv = 0)) \<or> (t = PInf \<and> 0 < k \<and> s \<noteq> Fin 0)"
  proof cases
    case fin
    have t: "t = round64 (sv * k)" by (simp add: t_def fin dmul_def)
    have "0 \<le> sv * k" using fin(2) k by simp
    then consider r where "round64 (sv * k) = Fin r" "0 \<le> r" | "round64 (sv * k) = PInf"
      using round64_nonneg_cases by blast
    then show ?thesis
    proof cases
      case 1
      have "r = 0" if "k = 0 \<or> s = Fin 0"
      proof -
        have "sv * k = 0" using that fin(1) by auto
        then have "round64 (sv * k) = Fin 0" by (simp only: round64_0)
        then show ?thesis using 1(1) by simp
      qed
      then show ?thesis using 1 t by auto
    next
      case 2
      have "sv * k \<noteq> 0" using 2 by (auto simp: round64_0)
      then have "0 < k" "sv \<noteq> 0" using k by auto
      then show ?thesis using 2 t fin(1) by auto
    qed
  next
    case inf
    have "k \<noteq> 0" using tn by (auto simp: t_def inf dmul_def)
    then have "0 < k" using k by simp
    then show ?thesis by (simp add: t_def inf dmul_def)
  qed
  consider (mf) mv where "m = Fin mv" | (mp) "m = PInf" | (mn) "m = NInf"
    using round64_cases [of mu] m by auto
  then show ?thesis
  proof cases
    case mf
    have id: "round64 mv = Fin mv" using m mf round64_idem [of mu mv] by simp
    from tc show ?thesis
    proof
      assume "\<exists>tv. t = Fin tv \<and> 0 \<le> tv \<and> (k = 0 \<or> s = Fin 0 \<longrightarrow> tv = 0)"
      then obtain tv where tv: "t = Fin tv" "0 \<le> tv" "k = 0 \<or> s = Fin 0 \<longrightarrow> tv = 0" by blast
      have lo: "dsub m t = round64 (mv - tv)" by (simp add: dsub_def fsub_def mf tv(1))
      have up: "dadd m t = round64 (mv + tv)" by (simp add: dadd_def mf tv(1))
      have a: "fle (round64 (mv - tv)) (round64 mv)" using tv(2) by (intro round64_mono) simp
      have b: "fle (round64 mv) (round64 (mv + tv))" using tv(2) by (intro round64_mono) simp
      have c: "round64 (mv - tv) = Fin mv \<and> Fin mv = round64 (mv + tv)" if "k = 0 \<or> s = Fin 0"
        using tv(3) that id by simp
      show ?thesis
        unfolding t_def [symmetric] lo up using a b c unfolding id mf by blast
    next
      assume p: "t = PInf \<and> 0 < k \<and> s \<noteq> Fin 0"
      then show ?thesis
        unfolding t_def [symmetric] by (simp add: mf dsub_def dadd_def fsub_def fle_def)
    qed
  next
    case mp
    from tc show ?thesis
    proof
      assume "\<exists>tv. t = Fin tv \<and> 0 \<le> tv \<and> (k = 0 \<or> s = Fin 0 \<longrightarrow> tv = 0)"
      then obtain tv where tv: "t = Fin tv" by blast
      show ?thesis
        unfolding t_def [symmetric] by (simp add: mp tv dsub_def dadd_def fsub_def fle_def)
    next
      assume p: "t = PInf \<and> 0 < k \<and> s \<noteq> Fin 0"
      then have "dsub m t = NaN" by (simp add: mp dsub_def fsub_def)
      then show ?thesis using ln by (simp add: t_def)
    qed
  next
    case mn
    from tc show ?thesis
    proof
      assume "\<exists>tv. t = Fin tv \<and> 0 \<le> tv \<and> (k = 0 \<or> s = Fin 0 \<longrightarrow> tv = 0)"
      then obtain tv where tv: "t = Fin tv" by blast
      show ?thesis
        unfolding t_def [symmetric] by (simp add: mn tv dsub_def dadd_def fsub_def fle_def)
    next
      assume p: "t = PInf \<and> 0 < k \<and> s \<noteq> Fin 0"
      then have "dadd m t = NaN" by (simp add: mn dadd_def)
      then show ?thesis using un by (simp add: t_def)
    qed
  qed
qed

lemma length_rolling_mean64: "length (rolling_mean64 w xs) = length xs"
  by (simp add: rolling_mean64_def rolling_mean_def length_rolling)

lemma length_bollinger_std: "length (bollinger_std prices w) = length prices"
  by (simp add: bollinger_std_def rolling_std64_def rolling_std_def length_rolling)

lemma bollinger_nth:
  assumes "i < length close" and "w \<le> Suc i" and "2 \<le> w"
  shows "fst (compute_bollinger_bands close w k) ! i = round64 (mean_of (window_of w close i))"
    and "bollinger_std close w ! i = round64 (window_std (window_of w close i))"
    and "fst (snd (compute_bollinger_bands close w k)) ! i
           = dadd (fst (compute_bollinger_bands close w k) ! i)
                  (dmul (bollinger_std close w ! i) (Fin k))"
    and "snd (snd (compute_bollinger_bands close w k)) ! i
           = dsub (fst (compute_bollinger_bands close w k) ! i)
                  (dmul (bollinger_std close w ! i) (Fin k))"
proof -
  have w1: "1 \<le> w" using assms(3) by simp
  have lm: "i < length (rolling_mean w (map Fin close))"
    using assms(1) by (simp add: rolling_mean_def length_rolling)
  have ls: "i < length (rolling_std w (map Fin close))"
    using assms(1) by (simp add: rolling_std_def length_rolling)
  have mid: "fst (compute_bollinger_bands close w k) = rolling_mean64 w (map Fin close)"
    by (simp add: compute_bollinger_bands_def Let_def)
  show "fst (compute_bollinger_bands close w k) ! i = round64 (mean_of (window_of w close i))"
    unfolding mid rolling_mean64_def using lm
    by (simp add: rolling_mean_nth [OF assms(1,2) w1])
  show "bollinger_std close w ! i = round64 (window_std (window_of w close i))"
    unfolding bollinger_std_def rolling_std64_def using ls
    by (simp add: rolling_std_nth [OF assms])
  show "fst (snd (compute_bollinger_bands close w k)) ! i
           = dadd (fst (compute_bollinger_bands close w k) ! i)
                  (dmul (bollinger_std close w ! i) (Fin k))"
    unfolding mid using assms(1)
    by (simp add: compute_bollinger_bands_def Let_def length_rolling_mean64 length_bollinger_std)
  show "snd (snd (compute_bollinger_bands close w k)) ! i
           = dsub (fst (compute_bollinger_bands close w k) ! i)
                  (dmul (bollinger_std close w ! i) (Fin k))"
    unfolding mid using assms(1)
    by (simp add: compute_bollinger_bands_def Let_def length_rolling_mean64 length_bollinger_std)
qed

text \<open>
  C10, as the code has it. For a window \<open>w \<ge> 2\<close> and \<open>num_std \<ge> 0\<close>, at every index
  \<open>i \<ge> w - 1\<close> where \<open>upper[i]\<close> and \<open>lower[i]\<close> are defined (not NaN), the bands satisfy
  \<open>lower[i] \<le> middle[i] \<le> upper[i]\<close>, and the three are equal whenever \<open>num_std\<close> is 0 or
  the rolling standard deviation of the window is 0. (The function returns the triple
  \<open>(middle, upper, lower)\<close>.)
\<close>

theorem bollinger_bands_ordered:
  assumes "2 \<le> w" and "0 \<le> num_std" and "w - 1 \<le> i" and "i < length close"
    and "fst (snd (compute_bollinger_bands close w num_std)) ! i \<noteq> NaN"
    and "snd (snd (compute_bollinger_bands close w num_std)) ! i \<noteq> NaN"
  shows "fle (snd (snd (compute_bollinger_bands close w num_std)) ! i)
             (fst (compute_bollinger_bands close w num_std) ! i) \<and>
         fle (fst (compute_bollinger_bands close w num_std) ! i)
             (fst (snd (compute_bollinger_bands close w num_std)) ! i) \<and>
         (num_std = 0 \<or> bollinger_std close w ! i = Fin 0 \<longrightarrow>
            snd (snd (compute_bollinger_bands close w num_std)) ! i
              = fst (compute_bollinger_bands close w num_std) ! i \<and>
            fst (compute_bollinger_bands close w num_std) ! i
              = fst (snd (compute_bollinger_bands close w num_std)) ! i)"
proof -
  have wi: "w \<le> Suc i" using assms(3) by simp
  note b = bollinger_nth [OF assms(4) wi assms(1)]
  have sg: "0 \<le> window_std (window_of w close i)" by (rule window_std_nonneg)
  show ?thesis
    using band_row [OF b(1) [of num_std] b(2) sg assms(2)] assms(5,6)
    unfolding b(3) [of num_std] b(4) [of num_std] by blast
qed

theorem bollinger_bands_ordered_witness:
  "fle (snd (snd (compute_bollinger_bands [10, 11, 12] 3 2)) ! 2)
       (fst (compute_bollinger_bands [10, 11, 12] 3 2) ! 2) \<and>
   fle (fst (compute_bollinger_bands [10, 11, 12] 3 2) ! 2)
       (fst (snd (compute_bollinger_bands [10, 11, 12] 3 2)) ! 2) \<and>
   snd (snd (compute_bollinger_bands [10, 11, 12] 3 2)) ! 2 = Fin 9 \<and>
   fst (compute_bollinger_bands [10, 11, 12] 3 2) ! 2 = Fin 11 \<and>
   fst (snd (compute_bollinger_bands [10, 11, 12] 3 2)) ! 2 = Fin 13 \<and>
   snd (snd (compute_bollinger_bands [10, 10, 10, 10] 3 2)) ! 2
     = fst (compute_bollinger_bands [10, 10, 10, 10] 3 2) ! 2 \<and>
   fst (compute_bollinger_bands [10, 10, 10, 10] 3 2) ! 2
     = fst (snd (compute_bollinger_bands [10, 10, 10, 10] 3 2)) ! 2"
proof -
  have w: "(2::nat) \<le> 3" by simp
  have k: "(0::real) \<le> 2" by simp
  have i: "(3::nat) - 1 \<le> 2" by simp
  have wi: "(3::nat) \<le> Suc 2" by simp
  have l1: "(2::nat) < length [10, 11, 12 :: real]" by simp
  have l2: "(2::nat) < length [10, 10, 10, 10 :: real]" by simp
  note b1 = bollinger_nth [OF l1 wi w]
  note b2 = bollinger_nth [OF l2 wi w]
  have m1: "fst (compute_bollinger_bands [10, 11, 12] 3 2) ! 2 = Fin 11"
    unfolding b1(1) by (simp add: window_of_def mean_of_def)
  have s1: "bollinger_std [10, 11, 12] 3 ! 2 = Fin 1"
    unfolding b1(2) by (simp add: window_of_def mean_of_def window_std_def)
  have u1: "fst (snd (compute_bollinger_bands [10, 11, 12] 3 2)) ! 2 = Fin 13"
    unfolding b1(3) m1 s1 by (simp add: dadd_def dmul_def)
  have d1: "snd (snd (compute_bollinger_bands [10, 11, 12] 3 2)) ! 2 = Fin 9"
    unfolding b1(4) m1 s1 by (simp add: dsub_def dmul_def fsub_def)
  have m2: "fst (compute_bollinger_bands [10, 10, 10, 10] 3 2) ! 2 = Fin 10"
    unfolding b2(1) by (simp add: window_of_def mean_of_def)
  have s2: "bollinger_std [10, 10, 10, 10] 3 ! 2 = Fin 0"
    unfolding b2(2) by (simp add: window_of_def mean_of_def window_std_def round64_0)
  have u2: "fst (snd (compute_bollinger_bands [10, 10, 10, 10] 3 2)) ! 2 = Fin 10"
    unfolding b2(3) m2 s2 by (simp add: dadd_def dmul_def round64_0)
  have d2: "snd (snd (compute_bollinger_bands [10, 10, 10, 10] 3 2)) ! 2 = Fin 10"
    unfolding b2(4) m2 s2 by (simp add: dsub_def dmul_def fsub_def round64_0)
  have n1: "fst (snd (compute_bollinger_bands [10, 11, 12] 3 2)) ! 2 \<noteq> NaN"
    "snd (snd (compute_bollinger_bands [10, 11, 12] 3 2)) ! 2 \<noteq> NaN"
    unfolding u1 d1 by simp_all
  have n2: "fst (snd (compute_bollinger_bands [10, 10, 10, 10] 3 2)) ! 2 \<noteq> NaN"
    "snd (snd (compute_bollinger_bands [10, 10, 10, 10] 3 2)) ! 2 \<noteq> NaN"
    unfolding u2 d2 by simp_all
  note t1 = bollinger_bands_ordered [OF w k i l1 n1]
  note t2 = bollinger_bands_ordered [OF w k i l2 n2]
  show ?thesis
    using t1 t2 s2 m1 u1 d1 by blast
qed

lemma rhe_near_below: "0 \<le> d \<Longrightarrow> d < 1 / 2 \<Longrightarrow> rhe (of_int n - d) = n"
proof -
  assume d: "0 \<le> d" "d < 1 / 2"
  have "rhe (of_int (- n) + d) = - n" using d by (rule rhe_near_lt)
  moreover have "of_int n - d = - (of_int (- n) + d)" by simp
  ultimately show ?thesis using rhe_minus [of "of_int (- n) + d"] by simp
qed

lemma absorb_up:
  assumes "0 \<le> t" and "t \<le> 1 / 2 ^ 57"
  shows "round64 (201 / 2 + t) = Fin (201 / 2)"
proof (rule round64_eval [where e = 6])
  show "2 powr of_int 6 \<le> \<bar>201 / 2 + t\<bar>" using assms by (simp add: pw)
  have "t < 1" using assms(2) by (rule order_le_less_trans) simp
  then show "\<bar>201 / 2 + t\<bar> < 2 powr (of_int 6 + 1)" using assms(1) by (simp add: pw)
  have q: "(201 / 2 + t) / 2 powr (of_int (max 6 (- 1022)) - 52)
             = of_int (201 * 2 ^ 45) + t * 2 ^ 46"
    by (simp add: pw field_simps)
  have d0: "0 \<le> t * 2 ^ 46" using assms(1) by simp
  have "t * 2 ^ 46 \<le> 1 / 2 ^ 57 * 2 ^ 46" using assms(2) by (intro mult_right_mono) simp_all
  also have "\<dots> < 1 / 2" by simp
  finally have d1: "t * 2 ^ 46 < 1 / 2" .
  show "of_int (rhe ((201 / 2 + t) / 2 powr (of_int (max 6 (- 1022)) - 52)))
          * 2 powr (of_int (max 6 (- 1022)) - 52) = (201 / 2 :: real)"
    unfolding q rhe_near_lt [OF d0 d1] by (simp add: pw)
  show "\<bar>201 / 2 :: real\<bar> < 2 ^ 1024" by simp
qed

lemma absorb_down:
  assumes "0 \<le> t" and "t \<le> 1 / 2 ^ 57"
  shows "round64 (201 / 2 - t) = Fin (201 / 2)"
proof (rule round64_eval [where e = 6])
  have t1: "t < 1" using assms(2) by (rule order_le_less_trans) simp
  show "2 powr of_int 6 \<le> \<bar>201 / 2 - t\<bar>" using assms(1) t1 by (simp add: pw)
  show "\<bar>201 / 2 - t\<bar> < 2 powr (of_int 6 + 1)" using assms(1) t1 by (simp add: pw)
  have q: "(201 / 2 - t) / 2 powr (of_int (max 6 (- 1022)) - 52)
             = of_int (201 * 2 ^ 45) - t * 2 ^ 46"
    by (simp add: pw field_simps)
  have d0: "0 \<le> t * 2 ^ 46" using assms(1) by simp
  have "t * 2 ^ 46 \<le> 1 / 2 ^ 57 * 2 ^ 46" using assms(2) by (intro mult_right_mono) simp_all
  also have "\<dots> < 1 / 2" by simp
  finally have d1: "t * 2 ^ 46 < 1 / 2" .
  show "of_int (rhe ((201 / 2 - t) / 2 powr (of_int (max 6 (- 1022)) - 52)))
          * 2 powr (of_int (max 6 (- 1022)) - 52) = (201 / 2 :: real)"
    unfolding q rhe_near_below [OF d0 d1] by (simp add: pw)
  show "\<bar>201 / 2 :: real\<bar> < 2 ^ 1024" by simp
qed

lemma round64_pos_Fin:
  assumes "1 / 2 \<le> x" and "x \<le> 2"
  shows "\<exists>s. round64 x = Fin s \<and> 1 / 2 \<le> s \<and> s \<le> 2"
proof -
  have "\<bar>x\<bar> \<le> 2 ^ 1022"
  proof -
    have "\<bar>x\<bar> \<le> 2" using assms by simp
    also have "(2::real) \<le> 2 ^ 1022" by simp
    finally show ?thesis .
  qed
  then have f: "round64 x = Fin (r64 x)" by (rule round64_small)
  have h: "r64 (1 / 2) = 1 / 2"
    using r64_representable [of "- 1" "2 ^ 52"] by (simp add: pw)
  have t: "r64 2 = 2"
    using r64_of_int [of 2] by simp
  have "r64 (1 / 2) \<le> r64 x" using assms(1) by (rule r64_mono)
  moreover have "r64 x \<le> r64 2" using assms(2) by (rule r64_mono)
  ultimately show ?thesis using f h t by simp
qed

lemma round64_small_product:
  assumes "0 \<le> s" and "s \<le> 2" 
  shows "\<exists>t. round64 (s * (1 / 2 ^ 58)) = Fin t \<and> 0 \<le> t \<and> t \<le> 1 / 2 ^ 57"
proof -
  let ?x = "s * (1 / 2 ^ 58)"
  have x0: "0 \<le> ?x" using assms(1) by simp
  have "?x \<le> 2 * (1 / 2 ^ 58)" using assms(2) by (intro mult_right_mono) simp_all
  then have x1: "?x \<le> 1 / 2 ^ 57" by simp
  have "\<bar>?x\<bar> \<le> 2 ^ 1022"
  proof -
    have "\<bar>?x\<bar> \<le> 1 / 2 ^ 57" using x0 x1 by simp
    also have "\<dots> \<le> (2::real) ^ 1022" by simp
    finally show ?thesis .
  qed
  then have f: "round64 ?x = Fin (r64 ?x)" by (rule round64_small)
  have h: "r64 (1 / 2 ^ 57) = 1 / 2 ^ 57"
    using r64_representable [of "- 57" "2 ^ 52"] by (simp add: pw)
  have "r64 ?x \<le> r64 (1 / 2 ^ 57)" using x1 by (rule r64_mono)
  moreover have "0 \<le> r64 ?x" using x0 by (rule r64_nonneg)
  ultimately show ?thesis using f h by simp
qed

text \<open>
  The claim as stated fails in three places. With \<open>num_std = 0\<close> the three bands are
  equal although the rolling standard deviation is not 0 (close \<open>[1, 3]\<close>, window 2,
  index 1). With window 1 the rolling standard deviation is NaN, so \<open>lower\<close> is NaN and
  \<open>lower[0] \<le> middle[0]\<close> is false. And the three bands can be equal with both
  \<open>num_std\<close> and the deviation different from 0, when their product is too small to change
  the middle band in float64 (close \<open>[100, 101]\<close>, window 2, \<open>num_std = 1 / 2 ^ 58\<close>,
  index 1): equality does not imply that either is 0.
\<close>

theorem bollinger_counterexample:
  "snd (snd (compute_bollinger_bands [1, 3] 2 0)) ! 1 = fst (compute_bollinger_bands [1, 3] 2 0) ! 1 \<and>
   fst (compute_bollinger_bands [1, 3] 2 0) ! 1 = fst (snd (compute_bollinger_bands [1, 3] 2 0)) ! 1 \<and>
   bollinger_std [1, 3] 2 ! 1 \<noteq> Fin 0 \<and>
   \<not> fle (snd (snd (compute_bollinger_bands [1] 1 2)) ! 0) (fst (compute_bollinger_bands [1] 1 2) ! 0) \<and>
   snd (snd (compute_bollinger_bands [100, 101] 2 (1 / 2 ^ 58))) ! 1
     = fst (compute_bollinger_bands [100, 101] 2 (1 / 2 ^ 58)) ! 1 \<and>
   fst (compute_bollinger_bands [100, 101] 2 (1 / 2 ^ 58)) ! 1
     = fst (snd (compute_bollinger_bands [100, 101] 2 (1 / 2 ^ 58))) ! 1 \<and>
   bollinger_std [100, 101] 2 ! 1 \<noteq> Fin 0"
proof -
  have w: "(2::nat) \<le> 2" by simp
  have wi: "(2::nat) \<le> Suc 1" by simp
  have l1: "(1::nat) < length [1, 3 :: real]" by simp
  have l3: "(1::nat) < length [100, 101 :: real]" by simp
  note b1 = bollinger_nth [OF l1 wi w]
  note b3 = bollinger_nth [OF l3 wi w]
  have m1: "fst (compute_bollinger_bands [1, 3] 2 0) ! 1 = Fin 2"
    unfolding b1(1) by (simp add: window_of_def mean_of_def)
  have "window_std (window_of 2 [1, 3] 1) = sqrt 2"
    by (simp add: window_of_def mean_of_def window_std_def)
  moreover have "1 / 2 \<le> sqrt 2"
    by (rule real_le_rsqrt) (simp add: power2_eq_square)
  moreover have "sqrt 2 \<le> 2"
    by (rule real_le_lsqrt) simp_all
  ultimately obtain s1 where s1: "bollinger_std [1, 3] 2 ! 1 = Fin s1" "1 / 2 \<le> s1"
    unfolding b1(2) using round64_pos_Fin [of "sqrt 2"] by auto
  have u1: "fst (snd (compute_bollinger_bands [1, 3] 2 0)) ! 1 = Fin 2"
    unfolding b1(3) m1 s1(1) by (simp add: dadd_def dmul_def round64_0)
  have d1: "snd (snd (compute_bollinger_bands [1, 3] 2 0)) ! 1 = Fin 2"
    unfolding b1(4) m1 s1(1) by (simp add: dsub_def dmul_def fsub_def round64_0)
  have n1: "bollinger_std [1, 3] 2 ! 1 \<noteq> Fin 0" using s1 by simp
  have n2: "snd (snd (compute_bollinger_bands [1] 1 2)) ! 0 = NaN"
    by (simp add: compute_bollinger_bands_def bollinger_std_def rolling_std64_def
        rolling_mean64_def rolling_std_def rolling_mean_def rolling_def window_at_def dropna_def
        isnan_def nanstd_def nanvar_def nanmean_def dsub_def dmul_def fsub_def Let_def)
  have "round64 (201 / 2 + 0) = Fin (201 / 2)" by (rule absorb_up) simp_all
  then have r: "round64 (201 / 2) = Fin (201 / 2)" by simp
  have m3: "fst (compute_bollinger_bands [100, 101] 2 (1 / 2 ^ 58)) ! 1 = Fin (201 / 2)"
    unfolding b3(1) using r by (simp add: window_of_def mean_of_def)
  have ws: "window_std (window_of 2 [100, 101] 1) = sqrt (1 / 2)"
    by (simp add: window_of_def mean_of_def window_std_def power2_eq_square)
  have "1 / 2 \<le> sqrt (1 / 2)"
    by (rule real_le_rsqrt) (simp add: power2_eq_square)
  moreover have "sqrt (1 / 2) \<le> 2"
    by (rule real_le_lsqrt) simp_all
  ultimately have "\<exists>s. round64 (sqrt (1 / 2)) = Fin s \<and> 1 / 2 \<le> s \<and> s \<le> 2"
    by (rule round64_pos_Fin)
  then obtain s3 where s3: "bollinger_std [100, 101] 2 ! 1 = Fin s3" "1 / 2 \<le> s3" "s3 \<le> 2"
    unfolding b3(2) ws by blast
  have "0 \<le> s3" using s3(2) by simp
  then obtain t where t: "round64 (s3 * (1 / 2 ^ 58)) = Fin t" "0 \<le> t" "t \<le> 1 / 2 ^ 57"
    using round64_small_product [of s3] s3(3) by blast
  have t3: "dmul (Fin s3) (Fin (1 / 2 ^ 58)) = Fin t"
    unfolding dmul_def fmul.simps rnd.simps by (rule t(1))
  have u3: "fst (snd (compute_bollinger_bands [100, 101] 2 (1 / 2 ^ 58))) ! 1 = Fin (201 / 2)"
    unfolding b3(3) m3 s3(1) t3 dadd_def fadd.simps rnd.simps using t(2,3) by (rule absorb_up)
  have d3: "snd (snd (compute_bollinger_bands [100, 101] 2 (1 / 2 ^ 58))) ! 1 = Fin (201 / 2)"
    unfolding b3(4) m3 s3(1) t3 dsub_def fsub_def fneg.simps fadd.simps rnd.simps
    using absorb_down [OF t(2,3)] by simp
  have n3: "bollinger_std [100, 101] 2 ! 1 \<noteq> Fin 0" using s3 by simp
  show ?thesis
    unfolding m1 u1 d1 n2 m3 u3 d3 using n1 n3 by (simp add: fle_def)
qed

subsection \<open>Generated series\<close>







lemma generate_succeeds:
  assumes "\<not> ordinal now - int days < 1" and "\<not> volatility < 0"
  shows "\<exists>df g'. generate_stock_prices ops now g symbol days initial_price drift volatility
           = Inr (df, g')"
proof -
  obtain returns s1 where r: "draws (normal ops drift volatility) days g = (returns, s1)"
    by (cases "draws (normal ops drift volatility) days g") auto
  obtain u_open s2 where o: "draws (uniform ops (- 0.005) 0.005) days s1 = (u_open, s2)"
    by (cases "draws (uniform ops (- 0.005) 0.005) days s1") auto
  obtain u_high s3 where h: "draws (uniform ops 0 0.01) days s2 = (u_high, s3)"
    by (cases "draws (uniform ops 0 0.01) days s2") auto
  obtain u_low s4 where l: "draws (uniform ops 0 0.01) days s3 = (u_low, s4)"
    by (cases "draws (uniform ops 0 0.01) days s3") auto
  obtain volume s5 where v: "draws (randint ops 1000000 10000000) days s4 = (volume, s5)"
    by (cases "draws (randint ops 1000000 10000000) days s4") auto
  show ?thesis
    using assms unfolding generate_stock_prices_def Let_def r o h l v prod.case
    by simp
qed

lemma generate_Date:
  assumes "generate_stock_prices ops now g symbol days initial_price drift volatility = Inr (df, g')"
  shows "Date df = date_range (add_days now (- int days)) days"
proof -
  obtain returns s1 where r: "draws (normal ops drift volatility) days g = (returns, s1)"
    by (cases "draws (normal ops drift volatility) days g") auto
  obtain u_open s2 where o: "draws (uniform ops (- 0.005) 0.005) days s1 = (u_open, s2)"
    by (cases "draws (uniform ops (- 0.005) 0.005) days s1") auto
  obtain u_high s3 where h: "draws (uniform ops 0 0.01) days s2 = (u_high, s3)"
    by (cases "draws (uniform ops 0 0.01) days s2") auto
  obtain u_low s4 where l: "draws (uniform ops 0 0.01) days s3 = (u_low, s4)"
    by (cases "draws (uniform ops 0 0.01) days s3") auto
  obtain volume s5 where v: "draws (randint ops 1000000 10000000) days s4 = (volume, s5)"
    by (cases "draws (randint ops 1000000 10000000) days s4") auto
  show ?thesis
    using assms unfolding generate_stock_prices_def Let_def r o h l v prod.case
    by (auto split: if_splits)
qed





lemma draws_one: "draws f 1 g = ([fst (f g)], snd (f g))"
  by (simp add: Let_def split: prod.splits)







subsection \<open>Reproducibility\<close>

lemma generate_clock_independent:
  assumes "generate_stock_prices ops now1 g symbol days initial_price drift volatility = Inr (df1, g1)"
    and "generate_stock_prices ops now2 g symbol days initial_price drift volatility = Inr (df2, g2)"
  shows "g1 = g2 \<and> no_date df1 = no_date df2"
proof -
  obtain returns s1 where r: "draws (normal ops drift volatility) days g = (returns, s1)"
    by (cases "draws (normal ops drift volatility) days g") auto
  obtain u_open s2 where o: "draws (uniform ops (- 0.005) 0.005) days s1 = (u_open, s2)"
    by (cases "draws (uniform ops (- 0.005) 0.005) days s1") auto
  obtain u_high s3 where h: "draws (uniform ops 0 0.01) days s2 = (u_high, s3)"
    by (cases "draws (uniform ops 0 0.01) days s2") auto
  obtain u_low s4 where l: "draws (uniform ops 0 0.01) days s3 = (u_low, s4)"
    by (cases "draws (uniform ops 0 0.01) days s3") auto
  obtain volume s5 where v: "draws (randint ops 1000000 10000000) days s4 = (volume, s5)"
    by (cases "draws (randint ops 1000000 10000000) days s4") auto
  show ?thesis
    using assms unfolding generate_stock_prices_def Let_def r o h l v prod.case
    by (auto simp: no_date_def split: if_splits)
qed

lemma generate_Volume:
  assumes "generate_stock_prices ops now g symbol days initial_price drift volatility = Inr (df, g')"
  shows "Volume df =
           fst (draws (randint ops 1000000 10000000) days
             (snd (draws (uniform ops 0 0.01) days
               (snd (draws (uniform ops 0 0.01) days
                 (snd (draws (uniform ops (- 0.005) 0.005) days
                   (snd (draws (normal ops drift volatility) days g)))))))))"
proof -
  obtain returns s1 where r: "draws (normal ops drift volatility) days g = (returns, s1)"
    by (cases "draws (normal ops drift volatility) days g") auto
  obtain u_open s2 where o: "draws (uniform ops (- 0.005) 0.005) days s1 = (u_open, s2)"
    by (cases "draws (uniform ops (- 0.005) 0.005) days s1") auto
  obtain u_high s3 where h: "draws (uniform ops 0 0.01) days s2 = (u_high, s3)"
    by (cases "draws (uniform ops 0 0.01) days s2") auto
  obtain u_low s4 where l: "draws (uniform ops 0 0.01) days s3 = (u_low, s4)"
    by (cases "draws (uniform ops 0 0.01) days s3") auto
  obtain volume s5 where v: "draws (randint ops 1000000 10000000) days s4 = (volume, s5)"
    by (cases "draws (randint ops 1000000 10000000) days s4") auto
  have "Volume df = volume"
    using assms unfolding generate_stock_prices_def Let_def r o h l v prod.case
    by (auto split: if_splits)
  then show ?thesis
    unfolding r snd_conv o h l v fst_conv .
qed

lemma strip_dict_set: "strip_dict (dict_set d k v) = dict_set (strip_dict d) k (no_date v)"
  by (induction d) (auto simp: strip_dict_def)

lemma multiple_loop_clock_independent:
  assumes "multiple_loop ops clock1 i g symbols days d1 = Inr (r1, g1)"
    and "multiple_loop ops clock2 i g symbols days d2 = Inr (r2, g2)"
    and "strip_dict d1 = strip_dict d2"
  shows "g1 = g2 \<and> strip_dict r1 = strip_dict r2"
  using assms
proof (induction symbols arbitrary: i g d1 d2)
  case Nil
  then show ?case by simp
next
  case (Cons symbol rest)
  obtain p s1 where a: "uniform ops 50 200 g = (p, s1)" by (cases "uniform ops 50 200 g") auto
  obtain dr s2 where b: "uniform ops (- 0.0005) 0.001 s1 = (dr, s2)"
    by (cases "uniform ops (- 0.0005) 0.001 s1") auto
  obtain vo s3 where c: "uniform ops 0.01 0.03 s2 = (vo, s3)"
    by (cases "uniform ops 0.01 0.03 s2") auto
  from Cons.prems(1) obtain df1 t1 where
    e1: "generate_stock_prices ops (clock1 i) s3 symbol days p dr vo = Inr (df1, t1)"
    and m1: "multiple_loop ops clock1 (Suc i) t1 rest days (dict_set d1 symbol df1) = Inr (r1, g1)"
    unfolding multiple_loop.simps a b c prod.case by (auto split: sum.splits)
  from Cons.prems(2) obtain df2 t2 where
    e2: "generate_stock_prices ops (clock2 i) s3 symbol days p dr vo = Inr (df2, t2)"
    and m2: "multiple_loop ops clock2 (Suc i) t2 rest days (dict_set d2 symbol df2) = Inr (r2, g2)"
    unfolding multiple_loop.simps a b c prod.case by (auto split: sum.splits)
  from generate_clock_independent [OF e1 e2] have t: "t1 = t2" and n: "no_date df1 = no_date df2"
    by simp_all
  have s: "strip_dict (dict_set d1 symbol df1) = strip_dict (dict_set d2 symbol df2)"
    unfolding strip_dict_set using Cons.prems(3) n by simp
  show ?case
    using Cons.IH [OF m1 _ s] m2 t by simp
qed

lemma do_call_clock_independent:
  assumes "do_call ops clock1 g c = Inr (o1, g1)" and "do_call ops clock2 g c = Inr (o2, g2)"
  shows "g1 = g2 \<and> strip_dates o1 = strip_dates o2"
proof (cases c)
  case (Single symbol days p dr vo)
  from assms(1) obtain df1 where
    e1: "generate_stock_prices ops (clock1 0) g symbol days p dr vo = Inr (df1, g1)"
    and o1: "o1 = Frame df1"
    unfolding Single by (auto split: sum.splits)
  from assms(2) obtain df2 where
    e2: "generate_stock_prices ops (clock2 0) g symbol days p dr vo = Inr (df2, g2)"
    and o2: "o2 = Frame df2"
    unfolding Single by (auto split: sum.splits)
  show ?thesis
    using generate_clock_independent [OF e1 e2] by (simp add: o1 o2)
next
  case (Multiple symbols days)
  from assms(1) obtain r1 where
    e1: "multiple_loop ops clock1 0 g symbols days [] = Inr (r1, g1)" and o1: "o1 = Frames r1"
    unfolding Multiple by (auto simp: generate_multiple_stocks_def split: sum.splits)
  from assms(2) obtain r2 where
    e2: "multiple_loop ops clock2 0 g symbols days [] = Inr (r2, g2)" and o2: "o2 = Frames r2"
    unfolding Multiple by (auto simp: generate_multiple_stocks_def split: sum.splits)
  have "g1 = g2 \<and> strip_dict r1 = strip_dict r2"
    using e1 e2 by (rule multiple_loop_clock_independent) simp
  then show ?thesis
    by (simp add: o1 o2 strip_dict_def)
qed

lemma exec_calls_clock_independent:
  assumes "map snd cs1 = map snd cs2"
    and "exec ops g (map (\<lambda>(clock, c). Call clock c) cs1) = Inr outs1"
    and "exec ops g (map (\<lambda>(clock, c). Call clock c) cs2) = Inr outs2"
  shows "map strip_dates outs1 = map strip_dates outs2"
  using assms
proof (induction cs1 arbitrary: cs2 g outs1 outs2)
  case Nil
  then show ?case by simp
next
  case (Cons x xs)
  obtain clock1 c where x: "x = (clock1, c)" by (cases x) auto
  from Cons.prems(1) obtain clock2 ys where cs2: "cs2 = (clock2, c) # ys"
    and m: "map snd xs = map snd ys"
    by (cases cs2) (auto simp: x)
  from Cons.prems(2) obtain o1 g1 r1 where
    a1: "do_call ops clock1 g c = Inr (o1, g1)"
    and b1: "exec ops g1 (map (\<lambda>(clock, c). Call clock c) xs) = Inr r1"
    and d1: "outs1 = o1 # r1"
    unfolding x by (auto split: sum.splits)
  from Cons.prems(3) obtain o2 g2 r2 where
    a2: "do_call ops clock2 g c = Inr (o2, g2)"
    and b2: "exec ops g2 (map (\<lambda>(clock, c). Call clock c) ys) = Inr r2"
    and d2: "outs2 = o2 # r2"
    unfolding cs2 by (auto split: sum.splits)
  from do_call_clock_independent [OF a1 a2] have e: "g1 = g2" "strip_dates o1 = strip_dates o2"
    by simp_all
  have "map strip_dates r1 = map strip_dates r2"
    using Cons.IH [OF m b1] b2 e(1) by simp
  then show ?case
    by (simp add: d1 d2 e(2))
qed

lemma multiple_loop_succeeds:
  assumes "\<forall>s. \<not> fst (uniform ops 0.01 0.03 s) < 0"
    and "\<forall>j. \<not> ordinal (clock j) - int days < 1"
  shows "\<exists>r g'. multiple_loop ops clock i g symbols days d = Inr (r, g')"
proof (induction symbols arbitrary: i g d)
  case Nil
  show ?case by simp
next
  case (Cons symbol rest)
  obtain p s1 where a: "uniform ops 50 200 g = (p, s1)" by (cases "uniform ops 50 200 g") auto
  obtain dr s2 where b: "uniform ops (- 0.0005) 0.001 s1 = (dr, s2)"
    by (cases "uniform ops (- 0.0005) 0.001 s1") auto
  obtain vo s3 where c: "uniform ops 0.01 0.03 s2 = (vo, s3)"
    by (cases "uniform ops 0.01 0.03 s2") auto
  have v: "\<not> vo < 0" using assms(1) [rule_format, of s2] unfolding c fst_conv .
  have t: "\<not> ordinal (clock i) - int days < 1" using assms(2) by blast
  from generate_succeeds
         [where ops = ops and g = s3 and symbol = symbol and initial_price = p and drift = dr,
          OF t v]
  obtain df t1 where
    e: "generate_stock_prices ops (clock i) s3 symbol days p dr vo = Inr (df, t1)"
    by blast
  show ?case
    unfolding multiple_loop.simps a b c prod.case e using Cons.IH by simp
qed

lemma run_single:
  assumes "generate_stock_prices ops (clock 0) (seed_state ops seed) symbol days p dr vo = Inr (df, g')"
  shows "run ops g0 seed [(clock, Single symbol days p dr vo)] = Inr [Frame df]"
  by (simp add: run_def fetcher_init_def assms)

text \<open>
  C9, as the code has it. Two runs in which a fetcher is constructed with the same seed
  and the same calls are issued in the same order, with nothing else touching numpy's
  global stream between the construction and the calls, produce the same Symbol, Open,
  High, Low, Close and Volume columns, whatever the state of the stream was before and
  whatever the clock shows; the Date column is computed from \<^verbatim>\<open>datetime.now()\<close> at each
  call, and with the same clock readings the whole output is the same.
\<close>

theorem run_reproducible:
  assumes "map snd calls1 = map snd calls2"
    and "run ops g1 seed calls1 = Inr outs1" and "run ops g2 seed calls2 = Inr outs2"
  shows "map strip_dates outs1 = map strip_dates outs2 \<and> (calls1 = calls2 \<longrightarrow> outs1 = outs2)"
proof -
  have r1: "exec ops (seed_state ops seed) (map (\<lambda>(clock, c). Call clock c) calls1) = Inr outs1"
    using assms(2) by (simp add: run_def fetcher_init_def)
  have r2: "exec ops (seed_state ops seed) (map (\<lambda>(clock, c). Call clock c) calls2) = Inr outs2"
    using assms(3) by (simp add: run_def fetcher_init_def)
  have "map strip_dates outs1 = map strip_dates outs2"
    using assms(1) r1 r2 by (rule exec_calls_clock_independent)
  moreover have "outs1 = outs2" if "calls1 = calls2"
    using r1 r2 that by simp
  ultimately show ?thesis by blast
qed

theorem run_reproducible_witness:
  "(case (run counting_rng 0 42
            [(fixed_clock 739000 0, Single ''TEST'' 1 100 0 0),
             (fixed_clock 739000 0, Multiple [''A'', ''B''] 1)],
          run counting_rng 5 42
            [(fixed_clock 739001 7, Single ''TEST'' 1 100 0 0),
             (fixed_clock 739001 7, Multiple [''A'', ''B''] 1)]) of
      (Inr outs1, Inr outs2) \<Rightarrow> map strip_dates outs1 = map strip_dates outs2
    | _ \<Rightarrow> False)"
proof -
  let ?c1 = "fixed_clock 739000 0"
  let ?c2 = "fixed_clock 739001 7"
  let ?g = "seed_state counting_rng 42"
  have u: "\<forall>s. \<not> fst (uniform counting_rng 0.01 0.03 s) < 0"
    by (simp add: counting_rng_def)
  have t1: "\<forall>j. \<not> ordinal (?c1 j) - int 1 < 1" by (simp add: fixed_clock_def)
  have t2: "\<forall>j. \<not> ordinal (?c2 j) - int 1 < 1" by (simp add: fixed_clock_def)
  have v: "\<not> (0::real) < 0" by simp
  from generate_succeeds
         [where ops = counting_rng and g = ?g and symbol = "''TEST''" and initial_price = 100
            and drift = 0, OF t1 [rule_format, of 0] v]
  obtain df1 s1 where
    e1: "generate_stock_prices counting_rng (?c1 0) ?g ''TEST'' 1 100 0 0 = Inr (df1, s1)"
    by blast
  from generate_succeeds
         [where ops = counting_rng and g = ?g and symbol = "''TEST''" and initial_price = 100
            and drift = 0, OF t2 [rule_format, of 0] v]
  obtain df2 s2 where
    e2: "generate_stock_prices counting_rng (?c2 0) ?g ''TEST'' 1 100 0 0 = Inr (df2, s2)"
    by blast
  from multiple_loop_succeeds [OF u t1, of 0 s1 "[''A'', ''B'']" "[]"]
  obtain r1 g1 where
    m1: "multiple_loop counting_rng ?c1 0 s1 [''A'', ''B''] 1 [] = Inr (r1, g1)"
    by blast
  from multiple_loop_succeeds [OF u t2, of 0 s2 "[''A'', ''B'']" "[]"]
  obtain r2 g2 where
    m2: "multiple_loop counting_rng ?c2 0 s2 [''A'', ''B''] 1 [] = Inr (r2, g2)"
    by blast
  have x1: "run counting_rng 0 42
              [(?c1, Single ''TEST'' 1 100 0 0), (?c1, Multiple [''A'', ''B''] 1)]
            = Inr [Frame df1, Frames r1]"
    unfolding run_def list.map prod.case exec.simps fetcher_init_def do_call.simps
      generate_multiple_stocks_def e1 sum.case m1
    by simp
  have x2: "run counting_rng 5 42
              [(?c2, Single ''TEST'' 1 100 0 0), (?c2, Multiple [''A'', ''B''] 1)]
            = Inr [Frame df2, Frames r2]"
    unfolding run_def list.map prod.case exec.simps fetcher_init_def do_call.simps
      generate_multiple_stocks_def e2 sum.case m2
    by simp
  have m: "map snd [(?c1, Single ''TEST'' 1 100 0 0), (?c1, Multiple [''A'', ''B''] 1)]
         = map snd [(?c2, Single ''TEST'' 1 100 0 0), (?c2, Multiple [''A'', ''B''] 1)]"
    by simp
  show ?thesis
    using run_reproducible [OF m x1 x2] unfolding x1 x2 by simp
qed

text \<open>
  The claim as stated fails in two ways. Two runs with seed 42 and the same single call,
  started one microsecond apart, differ in the Date column. And when a second fetcher is
  constructed with another seed between the construction and the call, the call draws
  from the stream as the second construction left it, and the output differs (here in the
  Volume column).
\<close>

theorem run_reproducible_counterexample:
  "run counting_rng 0 42 [(fixed_clock 739000 0, Single ''TEST'' 1 100 0 0)]
     \<noteq> run counting_rng 0 42 [(fixed_clock 739000 1, Single ''TEST'' 1 100 0 0)] \<and>
   exec counting_rng 0
       [Construct 42, Construct 7, Call (fixed_clock 739000 0) (Single ''TEST'' 1 100 0 0)]
     \<noteq> exec counting_rng 0
       [Construct 42, Call (fixed_clock 739000 0) (Single ''TEST'' 1 100 0 0)]"
proof -
  let ?c1 = "fixed_clock 739000 0"
  let ?c2 = "fixed_clock 739000 1"
  have t1: "\<not> ordinal (?c1 0) - int 1 < 1" by (simp add: fixed_clock_def)
  have t2: "\<not> ordinal (?c2 0) - int 1 < 1" by (simp add: fixed_clock_def)
  have v: "\<not> (0::real) < 0" by simp
  from generate_succeeds
         [where ops = counting_rng and g = "seed_state counting_rng 42" and symbol = "''TEST''"
            and initial_price = 100 and drift = 0, OF t1 v]
  obtain df1 s1 where
    e1: "generate_stock_prices counting_rng (?c1 0) (seed_state counting_rng 42) ''TEST'' 1 100 0 0
           = Inr (df1, s1)"
    by blast
  from generate_succeeds
         [where ops = counting_rng and g = "seed_state counting_rng 42" and symbol = "''TEST''"
            and initial_price = 100 and drift = 0, OF t2 v]
  obtain df2 s2 where
    e2: "generate_stock_prices counting_rng (?c2 0) (seed_state counting_rng 42) ''TEST'' 1 100 0 0
           = Inr (df2, s2)"
    by blast
  from generate_succeeds
         [where ops = counting_rng and g = "seed_state counting_rng 7" and symbol = "''TEST''"
            and initial_price = 100 and drift = 0, OF t1 v]
  obtain df3 s3 where
    e3: "generate_stock_prices counting_rng (?c1 0) (seed_state counting_rng 7) ''TEST'' 1 100 0 0
           = Inr (df3, s3)"
    by blast
  have r1: "run counting_rng 0 42 [(?c1, Single ''TEST'' 1 100 0 0)] = Inr [Frame df1]"
    using e1 by (rule run_single)
  have r2: "run counting_rng 0 42 [(?c2, Single ''TEST'' 1 100 0 0)] = Inr [Frame df2]"
    using e2 by (rule run_single)
  have d1: "Date df1 = [\<lparr>ordinal = 738999, micros = 0\<rparr>]"
    unfolding generate_Date [OF e1]
    by (simp add: date_range_def rollforward_def weekday_def add_days_def fixed_clock_def)
  have d2: "Date df2 = [\<lparr>ordinal = 738999, micros = 1\<rparr>]"
    unfolding generate_Date [OF e2]
    by (simp add: date_range_def rollforward_def weekday_def add_days_def fixed_clock_def)
  have a: "df1 \<noteq> df2"
    using d1 d2 by auto
  have x1: "exec counting_rng 0 [Construct 42, Call ?c1 (Single ''TEST'' 1 100 0 0)] = Inr [Frame df1]"
    unfolding exec.simps fetcher_init_def do_call.simps e1 sum.case prod.case by simp
  have x3: "exec counting_rng 0 [Construct 42, Construct 7, Call ?c1 (Single ''TEST'' 1 100 0 0)]
              = Inr [Frame df3]"
    unfolding exec.simps fetcher_init_def do_call.simps e3 sum.case prod.case by simp
  have v1: "Volume df1 = [1000046]"
    unfolding generate_Volume [OF e1] by (simp add: draws_one counting_rng_def)
  have v3: "Volume df3 = [1000011]"
    unfolding generate_Volume [OF e3] by (simp add: draws_one counting_rng_def)
  have b: "df3 \<noteq> df1"
    using v1 v3 by auto
  show ?thesis
    unfolding r1 r2 x1 x3 using a b by simp
qed

end